theory Spec2Isabelle
  imports Main "HOL-Library.Signed_Division"
begin

section \<open>Data model of the B+ tree index (btree.cpp)\<close>

text \<open>
  Keys are C \<open>int\<close>s; the index only copies and compares them, so they are modelled as
  \<open>int\<close>. Page numbers are unsigned and \<open>Page::INVALID_NUMBER\<close> is 0. A record id is a
  (page, slot) pair. Array indices and occupancy counters are C \<open>int\<close>s far from the
  limits of their type, modelled as \<open>int\<close>.

  A node array is a total map from index to cell. The declared extent of an array (the
  leaf capacity, the internal capacity) is not part of the type: an access outside it
  reads or writes a cell of its own, without touching the neighbouring fields.

  A page of the file holds a leaf, an internal node or the header. The code casts the
  page buffer to the struct it expects; here a page remembers the struct it was last
  written through, and reading it through another one is the outcome \<open>WrongNodeKind\<close>.
\<close>

type_synonym PageId = nat
type_synonym RecordId = "nat \<times> nat"

definition INVALID_NUMBER :: PageId where
  "INVALID_NUMBER = 0"

datatype Operator = LT | LTE | GTE | GT

datatype Datatype = INTEGER | DOUBLE | STRING

datatype error =
    BadIndexInfo | BadOpcodes | BadScanrange | NoSuchKeyFound
  | ScanNotInitialized | IndexScanCompleted
  | InvalidPage  \<comment> \<open>readPage on a page number the file does not have\<close>
  | WrongNodeKind  \<comment> \<open>a page read through a struct other than the one it was written with\<close>
  | UninitializedRead  \<comment> \<open>a local variable used before any assignment\<close>

record LeafNodeInt =
  L_numOccupied :: int
  L_keyArray :: "int \<Rightarrow> int"
  ridArray :: "int \<Rightarrow> RecordId"
  rightSibPageNo :: PageId

record NonLeafNodeInt =
  level :: int
  N_numOccupied :: int
  N_keyArray :: "int \<Rightarrow> int"
  pageNoArray :: "int \<Rightarrow> PageId"

record IndexMetaInfo =
  relationName :: string
  M_attrByteOffset :: int
  attrType :: Datatype
  rootPageNo :: PageId

datatype page = LeafPage LeafNodeInt | NonLeafPage NonLeafNodeInt | MetaPage IndexMetaInfo

text \<open>
  The index object together with the file it owns. \<open>pages\<close> is the file seen through the
  buffer manager, \<open>numPages\<close> the number of pages allocated so far (allocPage hands out
  \<open>numPages + 1\<close>). \<open>freshLeaf\<close> and \<open>freshNonLeaf\<close> give the content a newly allocated
  page has before the index writes to it, as seen through each node struct: the buffer
  manager leaves it undefined, so it is a parameter of the state. Pin counts are not
  modelled; a page written while pinned is written to \<open>pages\<close>.
\<close>

record BTreeIndex =
  pages :: "PageId \<Rightarrow> page option"
  numPages :: nat
  freshLeaf :: "PageId \<Rightarrow> LeafNodeInt"
  freshNonLeaf :: "PageId \<Rightarrow> NonLeafNodeInt"
  headerPageNum :: PageId
  rootPageNum :: PageId
  attributeType :: Datatype
  attrByteOffset :: int
  leafOccupancy :: int
  nodeOccupancy :: int
  onlyOneRoot :: bool
  scanExecuting :: bool
  nextEntry :: int
  currentPageNum :: PageId
  lowValInt :: int
  highValInt :: int
  lowOp :: Operator
  highOp :: Operator

section \<open>Buffer manager operations used by the index\<close>

definition readLeaf :: "BTreeIndex \<Rightarrow> PageId \<Rightarrow> error + LeafNodeInt" where
  "readLeaf s p =
     (case pages s p of
        None \<Rightarrow> Inl InvalidPage
      | Some (LeafPage l) \<Rightarrow> Inr l
      | Some _ \<Rightarrow> Inl WrongNodeKind)"

definition readNonLeaf :: "BTreeIndex \<Rightarrow> PageId \<Rightarrow> error + NonLeafNodeInt" where
  "readNonLeaf s p =
     (case pages s p of
        None \<Rightarrow> Inl InvalidPage
      | Some (NonLeafPage n) \<Rightarrow> Inr n
      | Some _ \<Rightarrow> Inl WrongNodeKind)"

definition readMeta :: "BTreeIndex \<Rightarrow> PageId \<Rightarrow> error + IndexMetaInfo" where
  "readMeta s p =
     (case pages s p of
        None \<Rightarrow> Inl InvalidPage
      | Some (MetaPage m) \<Rightarrow> Inr m
      | Some _ \<Rightarrow> Inl WrongNodeKind)"

definition writePage :: "BTreeIndex \<Rightarrow> PageId \<Rightarrow> page \<Rightarrow> BTreeIndex" where
  "writePage s p pg = s\<lparr>pages := (pages s)(p \<mapsto> pg)\<rparr>"

definition allocPage :: "BTreeIndex \<Rightarrow> PageId \<times> BTreeIndex" where
  "allocPage s = (numPages s + 1, s\<lparr>numPages := numPages s + 1\<rparr>)"

section \<open>searchEntry\<close>

function searchEntry_loop :: "NonLeafNodeInt \<Rightarrow> int \<Rightarrow> int \<Rightarrow> int" where
  "searchEntry_loop currNode key i =
     (if i < N_numOccupied currNode
      then (if N_keyArray currNode i < key then searchEntry_loop currNode key (i + 1) else i)
      else i)"
  by pat_completeness auto
termination
  by (relation "measure (\<lambda>(currNode, key, i). nat (N_numOccupied currNode - i))") auto

declare searchEntry_loop.simps [simp del]

text \<open>
  The descent recurses once per internal level and follows page numbers found in the
  file, so it is given fuel: \<open>None\<close> means the fuel ran out before a leaf was reached.
  The result is the leaf's page number and the visited internal nodes, root first.
\<close>

fun searchEntry ::
  "nat \<Rightarrow> BTreeIndex \<Rightarrow> int \<Rightarrow> PageId \<Rightarrow> PageId list \<Rightarrow> (error + PageId \<times> PageId list) option"
where
  "searchEntry fuel s key rootNo visitedNodes =
     (if onlyOneRoot s then Some (Inr (rootNo, visitedNodes))
      else case fuel of
        0 \<Rightarrow> None
      | Suc fuel' \<Rightarrow>
         (case readNonLeaf s rootNo of
            Inl e \<Rightarrow> Some (Inl e)
          | Inr currNode \<Rightarrow>
             (let i = searchEntry_loop currNode key 0 in
              if level currNode = 0
              then searchEntry fuel' s key (pageNoArray currNode i) (visitedNodes @ [rootNo])
              else Some (Inr (pageNoArray currNode i, visitedNodes @ [rootNo])))))"

declare searchEntry.simps [simp del]

section \<open>insertEntryLeaf: insertion into a leaf with room\<close>

function insertEntryLeaf_loop :: "int \<Rightarrow> LeafNodeInt \<Rightarrow> int \<Rightarrow> LeafNodeInt \<times> int" where
  "insertEntryLeaf_loop key l i =
     (if i < L_numOccupied l
      then (if key > L_keyArray l (L_numOccupied l - 1 - i) then (l, i)
            else insertEntryLeaf_loop key
                   (l\<lparr>ridArray := (ridArray l)
                         (L_numOccupied l - 1 - i + 1 := ridArray l (L_numOccupied l - 1 - i)),
                      L_keyArray := (L_keyArray l)
                         (L_numOccupied l - 1 - i + 1 := L_keyArray l (L_numOccupied l - 1 - i))\<rparr>)
                   (i + 1))
      else (l, i))"
  by pat_completeness auto
termination
  by (relation "measure (\<lambda>(key, l, i). nat (L_numOccupied l - i))") auto

declare insertEntryLeaf_loop.simps [simp del]

definition insertEntryLeaf_node :: "int \<Rightarrow> RecordId \<Rightarrow> LeafNodeInt \<Rightarrow> LeafNodeInt" where
  "insertEntryLeaf_node key rid currLeafNode =
     (case insertEntryLeaf_loop key currLeafNode 0 of
        (l, i) \<Rightarrow>
          l\<lparr>ridArray := (ridArray l)(L_numOccupied l - i := rid),
            L_keyArray := (L_keyArray l)(L_numOccupied l - i := key),
            L_numOccupied := L_numOccupied l + 1\<rparr>)"

section \<open>splitLeaf: the partition of a full leaf\<close>

text \<open>
  \<open>capacity = ceil((leafOccupancy+1)/2)\<close> divides two C \<open>int\<close>s before \<open>ceil\<close> sees the
  quotient, so it is the truncated quotient.
\<close>

definition leafCapacity :: "int \<Rightarrow> int" where
  "leafCapacity lo = (lo + 1) sdiv 2"

function splitLeaf_loop ::
  "int \<Rightarrow> int \<Rightarrow> int \<Rightarrow> RecordId \<Rightarrow> LeafNodeInt \<Rightarrow> LeafNodeInt \<Rightarrow> bool \<Rightarrow> int
     \<Rightarrow> LeafNodeInt \<times> LeafNodeInt"
where
  "splitLeaf_loop lo capacity key rid cur new insertedFlag i =
     (if i < lo then
        (if key \<ge> L_keyArray cur (lo - 1 - i) then
           (let (cur1, new1) =
                  (if \<not> insertedFlag then
                     (if L_numOccupied new + capacity \<ge> lo + 1
                      then (cur\<lparr>L_numOccupied := L_numOccupied cur + 1,
                                ridArray := (ridArray cur)(lo - i := rid),
                                L_keyArray := (L_keyArray cur)(lo - i := key)\<rparr>, new)
                      else (cur, new\<lparr>L_numOccupied := L_numOccupied new + 1,
                                     ridArray := (ridArray new)(lo + 1 - capacity - 1 - i := rid),
                                     L_keyArray := (L_keyArray new)(lo + 1 - capacity - 1 - i := key)\<rparr>))
                   else (cur, new))
            in if L_numOccupied new1 + capacity \<ge> lo + 1 then (cur1, new1)
               else splitLeaf_loop lo capacity key rid
                      (cur1\<lparr>L_numOccupied := L_numOccupied cur1 - 1\<rparr>)
                      (new1\<lparr>ridArray := (ridArray new1)
                               (lo + 1 - capacity - 2 - i := ridArray cur1 (lo - i - 1)),
                            L_keyArray := (L_keyArray new1)
                               (lo + 1 - capacity - 2 - i := L_keyArray cur1 (lo - i - 1)),
                            L_numOccupied := L_numOccupied new1 + 1\<rparr>)
                      True (i + 1))
         else
           (if L_numOccupied new + capacity < lo + 1 then
              splitLeaf_loop lo capacity key rid
                (cur\<lparr>L_numOccupied := L_numOccupied cur - 1\<rparr>)
                (new\<lparr>ridArray := (ridArray new)
                         (lo + 1 - capacity - 1 - i := ridArray cur (lo - 1 - i)),
                     L_keyArray := (L_keyArray new)
                         (lo + 1 - capacity - 1 - i := L_keyArray cur (lo - 1 - i)),
                     L_numOccupied := L_numOccupied new + 1\<rparr>)
                insertedFlag (i + 1)
            else
              (let cur1 = cur\<lparr>L_keyArray := (L_keyArray cur)(lo - i := L_keyArray cur (lo - 1 - i)),
                              ridArray := (ridArray cur)(lo - i := ridArray cur (lo - 1 - i))\<rparr>
               in if lo = i + 1
                  then splitLeaf_loop lo capacity key rid
                         (cur1\<lparr>L_numOccupied := L_numOccupied cur1 + 1,
                               ridArray := (ridArray cur1)(lo - 1 - i := rid),
                               L_keyArray := (L_keyArray cur1)(lo - 1 - i := key)\<rparr>)
                         new True (i + 1)
                  else splitLeaf_loop lo capacity key rid cur1 new insertedFlag (i + 1))))
      else (cur, new))"
  by pat_completeness auto
termination
  by (relation "measure (\<lambda>(lo, capacity, key, rid, cur, new, insertedFlag, i). nat (lo - i))") auto

declare splitLeaf_loop.simps [simp del]

definition splitLeaf_node ::
  "int \<Rightarrow> int \<Rightarrow> RecordId \<Rightarrow> PageId \<Rightarrow> LeafNodeInt \<Rightarrow> LeafNodeInt
     \<Rightarrow> LeafNodeInt \<times> LeafNodeInt \<times> int"
where
  "splitLeaf_node lo key rid newPageNo currLeafNode newLeafPage =
     (let new = newLeafPage\<lparr>rightSibPageNo := rightSibPageNo currLeafNode\<rparr>;
          cur = currLeafNode\<lparr>rightSibPageNo := newPageNo\<rparr>;
          new = new\<lparr>L_numOccupied := 0\<rparr>;
          capacity = leafCapacity lo;
          (cur, new) = splitLeaf_loop lo capacity key rid cur new False 0;
          propagateUpKey = L_keyArray new 0
      in (cur, new, propagateUpKey))"

section \<open>insertEntryInternal and splitInternal\<close>

definition setKey :: "NonLeafNodeInt \<Rightarrow> int \<Rightarrow> int \<Rightarrow> NonLeafNodeInt" where
  "setKey n i v = n\<lparr>N_keyArray := (N_keyArray n)(i := v)\<rparr>"

definition setPageNo :: "NonLeafNodeInt \<Rightarrow> int \<Rightarrow> PageId \<Rightarrow> NonLeafNodeInt" where
  "setPageNo n i v = n\<lparr>pageNoArray := (pageNoArray n)(i := v)\<rparr>"

definition setOccupied :: "NonLeafNodeInt \<Rightarrow> int \<Rightarrow> NonLeafNodeInt" where
  "setOccupied n v = n\<lparr>N_numOccupied := v\<rparr>"

function insertEntryInternal_loop :: "int \<Rightarrow> NonLeafNodeInt \<Rightarrow> int \<Rightarrow> NonLeafNodeInt \<times> int" where
  "insertEntryInternal_loop key n i =
     (if i < N_numOccupied n
      then (if key > N_keyArray n (N_numOccupied n - 1 - i) then (n, i)
            else (let n = setPageNo n (N_numOccupied n - 1 - i + 1)
                            (pageNoArray n (N_numOccupied n - 1 - i));
                      n = setKey n (N_numOccupied n - 1 - i + 1)
                            (N_keyArray n (N_numOccupied n - 1 - i))
                  in insertEntryInternal_loop key n (i + 1)))
      else (n, i))"
  by pat_completeness auto
termination
  by (relation "measure (\<lambda>(key, n, i). nat (N_numOccupied n - i))")
     (auto simp: setKey_def setPageNo_def)

declare insertEntryInternal_loop.simps [simp del]

definition insertEntryInternal_node ::
  "int \<Rightarrow> PageId \<Rightarrow> bool \<Rightarrow> NonLeafNodeInt \<Rightarrow> NonLeafNodeInt"
where
  "insertEntryInternal_node key newPageNo splitFromLeaf currInternalNode =
     (let n = setPageNo currInternalNode (N_numOccupied currInternalNode + 1)
                (pageNoArray currInternalNode (N_numOccupied currInternalNode));
          (n, i) = insertEntryInternal_loop key n 0
      in if splitFromLeaf then
           (let n = setPageNo n (N_numOccupied n - i) (pageNoArray n (N_numOccupied n - i + 1));
                n = setKey n (N_numOccupied n - i) key;
                n = setPageNo n (N_numOccupied n - i + 1) newPageNo
            in setOccupied n (N_numOccupied n + 1))
         else
           (let n = setPageNo n (N_numOccupied n - i) newPageNo;
                n = setKey n (N_numOccupied n - i) key
            in setOccupied n (N_numOccupied n + 1)))"

text \<open>
  A C \<open>int\<close> stored into a \<open>PageId\<close> (an unsigned 32-bit integer) is reduced modulo
  \<open>2^32\<close>.
\<close>

definition pageId_of_int :: "int \<Rightarrow> PageId" where
  "pageId_of_int k = nat (k mod 2 ^ 32)"

definition nodeCapacity :: "int \<Rightarrow> int" where
  "nodeCapacity no = (no + 1) sdiv 2"

text \<open>
  The loop of splitInternal. \<open>propagateUpKey\<close> is declared without a value, so it is an
  option that is \<open>None\<close> until the loop assigns it.
\<close>

function splitInternal_loop ::
  "int \<Rightarrow> int \<Rightarrow> int \<Rightarrow> PageId \<Rightarrow> bool \<Rightarrow> NonLeafNodeInt \<Rightarrow> NonLeafNodeInt \<Rightarrow> bool
     \<Rightarrow> int option \<Rightarrow> int \<Rightarrow> NonLeafNodeInt \<times> NonLeafNodeInt \<times> bool \<times> int option"
where
  "splitInternal_loop no capacity key newPageNo splitFromLeaf cur new insertedFlag propagateUpKey i =
     (if i < no then
        (if key < N_keyArray cur i then
           (let (cur, new, propagateUpKey) =
                  (if \<not> insertedFlag then
                     (if N_numOccupied new > capacity then
                        (let cur = setKey cur (i - (N_numOccupied new - 1) - 1) key;
                             cur = (if splitFromLeaf
                                    then setPageNo
                                           (setPageNo cur (i - (N_numOccupied new - 1) - 1)
                                              (pageNoArray cur i))
                                           i newPageNo
                                    else setPageNo cur (i - (N_numOccupied new - 1) - 1) newPageNo)
                         in (setOccupied cur (N_numOccupied cur + 1), new, propagateUpKey))
                      else if N_numOccupied new < capacity then
                        (let new = setKey new i key;
                             (cur, new) =
                               (if splitFromLeaf
                                then (setPageNo cur i newPageNo,
                                      setPageNo new i (pageNoArray cur i))
                                else (cur, setPageNo new i newPageNo))
                         in (cur, setOccupied new (N_numOccupied new + 1), propagateUpKey))
                      else
                        (let (cur, new) =
                               (if splitFromLeaf
                                then (setPageNo cur i newPageNo,
                                      setPageNo new (N_numOccupied new) (pageNoArray cur i))
                                else (cur, setPageNo new (N_numOccupied new) newPageNo))
                         in (cur, setOccupied new (N_numOccupied new + 1), Some key)))
                   else (cur, new, propagateUpKey))
            in if N_numOccupied new > capacity then
                 (let cur = setKey cur (i - (N_numOccupied new - 1)) (N_keyArray cur i);
                      cur = setPageNo cur (i - (N_numOccupied new - 1)) (pageNoArray cur i)
                  in splitInternal_loop no capacity key newPageNo splitFromLeaf
                       cur new True propagateUpKey (i + 1))
               else if N_numOccupied new < capacity then
                 (let new = setKey new (i + 1) (N_keyArray cur i);
                      new = setPageNo new (i + 1) (pageNoArray cur i);
                      new = setOccupied new (N_numOccupied new + 1);
                      cur = setOccupied cur (N_numOccupied cur - 1)
                  in splitInternal_loop no capacity key newPageNo splitFromLeaf
                       cur new True propagateUpKey (i + 1))
               else
                 (let new = setPageNo new (N_numOccupied new) (pageNoArray cur i);
                      propagateUpKey = Some (N_keyArray cur i);
                      cur = setOccupied cur (N_numOccupied cur - 1);
                      new = setOccupied new (N_numOccupied new + 1)
                  in splitInternal_loop no capacity key newPageNo splitFromLeaf
                       cur new True propagateUpKey (i + 1)))
         else
           (if N_numOccupied new > capacity then
              (let cur = setKey cur (i - (N_numOccupied new - 1) - 1) (N_keyArray cur i);
                   cur = setPageNo cur (i - (N_numOccupied new - 1) - 1) (pageNoArray cur i)
               in splitInternal_loop no capacity key newPageNo splitFromLeaf
                    cur new insertedFlag propagateUpKey (i + 1))
            else if N_numOccupied new < capacity then
              (let new = setKey new i (N_keyArray cur i);
                   new = setPageNo new i (pageNoArray cur i);
                   new = setOccupied new (N_numOccupied new + 1);
                   cur = setOccupied cur (N_numOccupied cur - 1)
               in splitInternal_loop no capacity key newPageNo splitFromLeaf
                    cur new insertedFlag propagateUpKey (i + 1))
            else
              (let new = setPageNo new (N_numOccupied new) (pageNoArray cur i);
                   propagateUpKey = Some (N_keyArray cur i);
                   cur = setOccupied cur (N_numOccupied cur - 1);
                   new = setOccupied new (N_numOccupied new + 1)
               in splitInternal_loop no capacity key newPageNo splitFromLeaf
                    cur new insertedFlag propagateUpKey (i + 1))))
      else (cur, new, insertedFlag, propagateUpKey))"
  by pat_completeness auto
termination
  by (relation "measure (\<lambda>(no, capacity, key, newPageNo, splitFromLeaf, cur, new,
                            insertedFlag, propagateUpKey, i). nat (no - i))") auto

declare splitInternal_loop.simps [simp del]

definition splitInternal_node ::
  "int \<Rightarrow> int \<Rightarrow> PageId \<Rightarrow> bool \<Rightarrow> NonLeafNodeInt \<Rightarrow> NonLeafNodeInt
     \<Rightarrow> NonLeafNodeInt \<times> NonLeafNodeInt \<times> int option"
where
  "splitInternal_node no key newPageNo splitFromLeaf currInternalNode newInternalNode =
     (let new = setOccupied newInternalNode 0;
          new = new\<lparr>level := level currInternalNode\<rparr>;
          capacity = nodeCapacity no;
          (cur, new, insertedFlag, propagateUpKey) =
             splitInternal_loop no capacity key newPageNo splitFromLeaf
               currInternalNode new False None 0;
          cur = setPageNo cur (N_numOccupied cur) (pageNoArray cur no);
          cur = (if \<not> insertedFlag then
                   (let cur = setPageNo cur (N_numOccupied cur) (pageId_of_int key);
                        cur = (if splitFromLeaf
                               then setPageNo cur (N_numOccupied cur + 1) newPageNo
                               else setPageNo
                                      (setPageNo cur (N_numOccupied cur + 1)
                                         (pageNoArray cur (N_numOccupied cur)))
                                      (N_numOccupied cur) newPageNo)
                    in setOccupied cur (N_numOccupied cur + 1))
                 else cur)
      in (cur, new, propagateUpKey))"

text \<open>The header page's root field is rewritten whenever a new root is installed.\<close>

definition setHeaderRoot :: "BTreeIndex \<Rightarrow> PageId \<Rightarrow> error + BTreeIndex" where
  "setHeaderRoot s rootId =
     (case readMeta s (headerPageNum s) of
        Inl e \<Rightarrow> Inl e
      | Inr metadata \<Rightarrow>
          Inr (writePage s (headerPageNum s) (MetaPage (metadata\<lparr>rootPageNo := rootId\<rparr>))))"

function insertEntryInternal ::
    "BTreeIndex \<Rightarrow> int \<Rightarrow> PageId \<Rightarrow> PageId \<Rightarrow> PageId list \<Rightarrow> bool \<Rightarrow> error + BTreeIndex"
  and splitInternal ::
    "BTreeIndex \<Rightarrow> int \<Rightarrow> PageId \<Rightarrow> PageId \<Rightarrow> PageId list \<Rightarrow> bool \<Rightarrow> error + BTreeIndex"
where
  "insertEntryInternal s key pageNo newPageNo visitedNodes splitFromLeaf =
     (case readNonLeaf s pageNo of
        Inl e \<Rightarrow> Inl e
      | Inr currInternalNode \<Rightarrow>
          if N_numOccupied currInternalNode > nodeOccupancy s
          then splitInternal s key pageNo newPageNo visitedNodes splitFromLeaf
          else Inr (writePage s pageNo
                      (NonLeafPage (insertEntryInternal_node key newPageNo splitFromLeaf
                                      currInternalNode))))"
| "splitInternal s key pageNo newPageNo visitedNodes splitFromLeaf =
     (case readNonLeaf s pageNo of
        Inl e \<Rightarrow> Inl e
      | Inr currInternalNode \<Rightarrow>
          (let (newPageNoTemp, s) = allocPage s;
               (cur, new, propagateUpKey) =
                  splitInternal_node (nodeOccupancy s) key newPageNo splitFromLeaf
                    currInternalNode (freshNonLeaf s newPageNoTemp);
               s = writePage s pageNo (NonLeafPage cur);
               s = writePage s newPageNoTemp (NonLeafPage new)
           in case propagateUpKey of
                None \<Rightarrow> Inl UninitializedRead
              | Some propagateUpKey \<Rightarrow>
                  if visitedNodes \<noteq> [] then
                    insertEntryInternal s propagateUpKey (last visitedNodes) newPageNoTemp
                      (butlast visitedNodes) False
                  else
                    (let (rootId, s) = allocPage s;
                         rootNode = freshNonLeaf s rootId;
                         rootNode = setKey rootNode 0 propagateUpKey;
                         rootNode = setPageNo rootNode 0 newPageNoTemp;
                         rootNode = setPageNo rootNode 1 pageNo;
                         rootNode = setOccupied rootNode (N_numOccupied rootNode + 1);
                         rootNode = rootNode\<lparr>level := 0\<rparr>;
                         s = writePage s rootId (NonLeafPage rootNode);
                         s = s\<lparr>rootPageNum := rootId\<rparr>
                     in setHeaderRoot s rootId)))"
  by pat_completeness auto
termination
  by (relation "measure (\<lambda>x. case x of
          Inl (s, key, pageNo, newPageNo, visitedNodes, splitFromLeaf) \<Rightarrow> 2 * length visitedNodes + 2
        | Inr (s, key, pageNo, newPageNo, visitedNodes, splitFromLeaf) \<Rightarrow> 2 * length visitedNodes + 1)")
     (auto simp: neq_Nil_conv)

declare insertEntryInternal.simps [simp del] splitInternal.simps [simp del]

section \<open>splitLeaf, insertEntryLeaf and insertEntry\<close>

definition splitLeaf ::
  "BTreeIndex \<Rightarrow> int \<Rightarrow> RecordId \<Rightarrow> PageId \<Rightarrow> PageId list \<Rightarrow> error + BTreeIndex"
where
  "splitLeaf s key rid pageNo visitedNodes =
     (case readLeaf s pageNo of
        Inl e \<Rightarrow> Inl e
      | Inr currLeafNode \<Rightarrow>
          (let (newPageNo, s) = allocPage s;
               (cur, new, propagateUpKey) =
                  splitLeaf_node (leafOccupancy s) key rid newPageNo
                    currLeafNode (freshLeaf s newPageNo);
               s = writePage s pageNo (LeafPage cur);
               s = writePage s newPageNo (LeafPage new)
           in if visitedNodes \<noteq> [] then
                insertEntryInternal s propagateUpKey (last visitedNodes) newPageNo
                  (butlast visitedNodes) True
              else
                (let (rootId, s) = allocPage s;
                     rootNode = freshNonLeaf s rootId;
                     rootNode = setKey rootNode 0 propagateUpKey;
                     rootNode = setPageNo rootNode 0 pageNo;
                     rootNode = setPageNo rootNode 1 newPageNo;
                     rootNode = setOccupied rootNode (N_numOccupied rootNode + 1);
                     rootNode = rootNode\<lparr>level := 1\<rparr>;
                     s = writePage s rootId (NonLeafPage rootNode);
                     s = s\<lparr>onlyOneRoot := False\<rparr>;
                     s = s\<lparr>rootPageNum := rootId\<rparr>
                 in setHeaderRoot s rootId)))"

definition insertEntryLeaf ::
  "BTreeIndex \<Rightarrow> int \<Rightarrow> RecordId \<Rightarrow> PageId \<Rightarrow> PageId list \<Rightarrow> error + BTreeIndex"
where
  "insertEntryLeaf s key rid pageNo visitedNodes =
     (case readLeaf s pageNo of
        Inl e \<Rightarrow> Inl e
      | Inr currLeafNode \<Rightarrow>
          if L_numOccupied currLeafNode \<ge> leafOccupancy s
          then splitLeaf s key rid pageNo visitedNodes
          else Inr (writePage s pageNo (LeafPage (insertEntryLeaf_node key rid currLeafNode))))"

definition insertEntry :: "nat \<Rightarrow> BTreeIndex \<Rightarrow> int \<Rightarrow> RecordId \<Rightarrow> (error + BTreeIndex) option" where
  "insertEntry fuel s key rid =
     (case searchEntry fuel s key (rootPageNum s) [] of
        None \<Rightarrow> None
      | Some (Inl e) \<Rightarrow> Some (Inl e)
      | Some (Inr (pageNo, visitedNodes)) \<Rightarrow> Some (insertEntryLeaf s key rid pageNo visitedNodes))"

text \<open>A sequence of insertEntry calls, stopping at the first one that does not return.\<close>

fun insertEntries ::
  "nat \<Rightarrow> BTreeIndex \<Rightarrow> (int \<times> RecordId) list \<Rightarrow> (error + BTreeIndex) option"
where
  "insertEntries fuel s [] = Some (Inr s)"
| "insertEntries fuel s ((key, rid) # rest) =
     (case insertEntry fuel s key rid of
        Some (Inr s') \<Rightarrow> insertEntries fuel s' rest
      | r \<Rightarrow> r)"

section \<open>The constructor\<close>

text \<open>
  The constructor starts from an object whose members hold whatever the storage held
  (\<open>s0\<close>). On the open path the index file exists and is given by its pages; on the
  create path the file is new and the base relation is given by the (key, rid) pairs the
  relation scan yields, the key already read at the attribute's byte offset. The
  capacities \<open>INTARRAYLEAFSIZE\<close> and \<open>INTARRAYNONLEAFSIZE\<close> come from btree.h and are
  parameters. The relation name is a string of any length: the width of the header's
  name field, also from btree.h, is not modelled.
\<close>

definition BTreeIndex_open ::
  "BTreeIndex \<Rightarrow> (PageId \<Rightarrow> page option) \<Rightarrow> nat \<Rightarrow> string \<Rightarrow> int \<Rightarrow> Datatype \<Rightarrow> error + BTreeIndex"
where
  "BTreeIndex_open s0 filePages fileNumPages relName attrByteOffsetIn attrTypeIn =
     (let s = s0\<lparr>attributeType := attrTypeIn, attrByteOffset := attrByteOffsetIn,
                 pages := filePages, numPages := fileNumPages\<rparr>;
          metaPageId = 1
      in case readMeta s metaPageId of
           Inl e \<Rightarrow> Inl e
         | Inr metadata \<Rightarrow>
             if relationName metadata \<noteq> relName
                \<or> M_attrByteOffset metadata \<noteq> attrByteOffsetIn
                \<or> attrType metadata \<noteq> attrTypeIn
             then Inl BadIndexInfo
             else Inr (s\<lparr>headerPageNum := metaPageId, rootPageNum := rootPageNo metadata\<rparr>))"

definition BTreeIndex_create ::
  "nat \<Rightarrow> BTreeIndex \<Rightarrow> int \<Rightarrow> int \<Rightarrow> string \<Rightarrow> int \<Rightarrow> Datatype \<Rightarrow> (int \<times> RecordId) list
     \<Rightarrow> (error + BTreeIndex) option"
where
  "BTreeIndex_create fuel s0 INTARRAYLEAFSIZE INTARRAYNONLEAFSIZE relName attrByteOffsetIn
       attrTypeIn relation =
     (let s = s0\<lparr>attributeType := attrTypeIn, attrByteOffset := attrByteOffsetIn,
                 pages := Map.empty, numPages := 0\<rparr>;
          (metaPageId, s) = allocPage s;
          (rootPageId, s) = allocPage s;
          metadata = \<lparr>relationName = relName, M_attrByteOffset = attrByteOffsetIn,
                      attrType = attrTypeIn, rootPageNo = rootPageId\<rparr>;
          rootPage = (freshLeaf s rootPageId)
                       \<lparr>L_numOccupied := 0, rightSibPageNo := INVALID_NUMBER\<rparr>;
          s = writePage s metaPageId (MetaPage metadata);
          s = writePage s rootPageId (LeafPage rootPage);
          s = s\<lparr>headerPageNum := metaPageId, rootPageNum := rootPageId,
                leafOccupancy := INTARRAYLEAFSIZE, nodeOccupancy := INTARRAYNONLEAFSIZE,
                onlyOneRoot := True, scanExecuting := False\<rparr>
      in insertEntries fuel s relation)"

section \<open>The scan: startScan, scanNext, endScan\<close>

text \<open>
  A scan operation returns what it throws or returns together with the object it leaves
  behind, since a throw does not undo the assignments made before it.
\<close>

definition endScan :: "BTreeIndex \<Rightarrow> (error + unit) \<times> BTreeIndex" where
  "endScan s =
     (if \<not> scanExecuting s then (Inl ScanNotInitialized, s)
      else (Inr (), s\<lparr>scanExecuting := False\<rparr>))"

function startScan_loop :: "LeafNodeInt \<Rightarrow> int \<Rightarrow> Operator \<Rightarrow> int \<Rightarrow> int \<Rightarrow> int" where
  "startScan_loop leafNode lowVal lowOpV i nextEntryV =
     (if i < L_numOccupied leafNode then
        (if L_keyArray leafNode i < lowVal then
           startScan_loop leafNode lowVal lowOpV (i + 1) nextEntryV
         else if lowOpV \<noteq> GTE \<and> L_keyArray leafNode i = lowVal then
           startScan_loop leafNode lowVal lowOpV (i + 1) nextEntryV
         else i)
      else nextEntryV)"
  by pat_completeness auto
termination
  by (relation "measure (\<lambda>(leafNode, lowVal, lowOpV, i, nextEntryV).
                   nat (L_numOccupied leafNode - i))") auto

declare startScan_loop.simps [simp del]

definition startScan ::
  "nat \<Rightarrow> BTreeIndex \<Rightarrow> int \<Rightarrow> Operator \<Rightarrow> int \<Rightarrow> Operator \<Rightarrow> ((error + unit) \<times> BTreeIndex) option"
where
  "startScan fuel s lowValParm lowOpParm highValParm highOpParm =
     (let s = (if scanExecuting s then snd (endScan s) else s);
          s = s\<lparr>scanExecuting := True\<rparr>
      in if lowValParm > highValParm then Some (Inl BadScanrange, s)
         else
          (let s = s\<lparr>lowValInt := lowValParm\<rparr>;
               s = s\<lparr>highValInt := highValParm\<rparr>
           in if lowOpParm \<noteq> GT \<and> lowOpParm \<noteq> GTE then Some (Inl BadOpcodes, s)
              else if highOpParm \<noteq> LT \<and> highOpParm \<noteq> LTE then Some (Inl BadOpcodes, s)
              else
               (let s = s\<lparr>lowOp := lowOpParm\<rparr>;
                    s = s\<lparr>highOp := highOpParm\<rparr>
                in case searchEntry fuel s lowValParm (rootPageNum s) [] of
                     None \<Rightarrow> None
                   | Some (Inl e) \<Rightarrow> Some (Inl e, s)
                   | Some (Inr (pageNo, RootToLeafPath)) \<Rightarrow>
                      (let s = s\<lparr>currentPageNum := pageNo\<rparr>
                       in case readLeaf s (currentPageNum s) of
                            Inl e \<Rightarrow> Some (Inl e, s)
                          | Inr leafNode \<Rightarrow>
                             (let s = s\<lparr>nextEntry := - 1\<rparr>;
                                  s = s\<lparr>nextEntry :=
                                         startScan_loop leafNode (lowValInt s) (lowOp s) 0 (nextEntry s)\<rparr>
                              in if nextEntry s = L_numOccupied leafNode
                                 then Some (Inl NoSuchKeyFound, snd (endScan s))
                                 else if L_keyArray leafNode (nextEntry s) > highValInt s
                                         \<or> (L_keyArray leafNode (nextEntry s) = highValInt s
                                             \<and> highOp s = LT)
                                 then Some (Inl NoSuchKeyFound, snd (endScan s))
                                 else Some (Inr (), s))))))"

definition scanNext :: "BTreeIndex \<Rightarrow> (error + RecordId) \<times> BTreeIndex" where
  "scanNext s =
     (if \<not> scanExecuting s then (Inl ScanNotInitialized, s)
      else case readLeaf s (currentPageNum s) of
        Inl e \<Rightarrow> (Inl e, s)
      | Inr currentNode \<Rightarrow>
          if nextEntry s = - 1 then (Inl IndexScanCompleted, s)
          else
           (let outRid = ridArray currentNode (nextEntry s)
            in if nextEntry s + 1 < L_numOccupied currentNode then
                 (if L_keyArray currentNode (nextEntry s + 1) = highValInt s \<and> highOp s \<noteq> LTE
                  then (Inr outRid, s\<lparr>nextEntry := - 1\<rparr>)
                  else if L_keyArray currentNode (nextEntry s + 1) \<le> highValInt s
                  then (Inr outRid, s\<lparr>nextEntry := nextEntry s + 1\<rparr>)
                  else (Inr outRid, s\<lparr>nextEntry := - 1\<rparr>))
               else
                 (if rightSibPageNo currentNode = INVALID_NUMBER
                  then (Inr outRid, s\<lparr>nextEntry := - 1\<rparr>)
                  else
                   (let s = s\<lparr>currentPageNum := rightSibPageNo currentNode\<rparr>
                    in case readLeaf s (currentPageNum s) of
                         Inl e \<Rightarrow> (Inl e, s)
                       | Inr currentNode \<Rightarrow>
                           if L_numOccupied currentNode = 0
                           then (Inr outRid, s\<lparr>nextEntry := - 1\<rparr>)
                           else if L_keyArray currentNode 0 = highValInt s \<and> highOp s \<noteq> LTE
                           then (Inr outRid, s\<lparr>nextEntry := - 1\<rparr>)
                           else if L_keyArray currentNode 0 < highValInt s
                           then (Inr outRid, s\<lparr>nextEntry := 0\<rparr>)
                           else (Inr outRid, s\<lparr>nextEntry := - 1\<rparr>)))))"

text \<open>
  Draining a scan: scanNext is called until it throws; the record ids returned before
  the throw are collected, together with the error that ended the scan. The bound
  \<open>n\<close> limits the number of calls.
\<close>

fun drain :: "nat \<Rightarrow> BTreeIndex \<Rightarrow> (RecordId list \<times> error) option" where
  "drain 0 s = None"
| "drain (Suc n) s =
     (case scanNext s of
        (Inl e, s') \<Rightarrow> Some ([], e)
      | (Inr rid, s') \<Rightarrow>
          (case drain n s' of
             None \<Rightarrow> None
           | Some (rids, e) \<Rightarrow> Some (rid # rids, e)))"

section \<open>Views of the file used to state properties\<close>

text \<open>The live entries of a leaf and the live keys and children of an internal node.\<close>

definition leaf_entries :: "LeafNodeInt \<Rightarrow> (int \<times> RecordId) list" where
  "leaf_entries l =
     map (\<lambda>i. (L_keyArray l (int i), ridArray l (int i))) [0..<nat (L_numOccupied l)]"

definition leaf_keys :: "LeafNodeInt \<Rightarrow> int list" where
  "leaf_keys l = map fst (leaf_entries l)"

definition node_keys :: "NonLeafNodeInt \<Rightarrow> int list" where
  "node_keys n = map (\<lambda>i. N_keyArray n (int i)) [0..<nat (N_numOccupied n)]"

definition node_children :: "NonLeafNodeInt \<Rightarrow> PageId list" where
  "node_children n = map (\<lambda>i. pageNoArray n (int i)) [0..<nat (N_numOccupied n) + 1]"

text \<open>The occupancy counts of the internal nodes of the file, by page number.\<close>

definition internalOccupancies :: "BTreeIndex \<Rightarrow> (PageId \<times> int) list" where
  "internalOccupancies s =
     concat (map (\<lambda>p. case pages s p of
                          Some (NonLeafPage n) \<Rightarrow> [(p, N_numOccupied n)]
                        | _ \<Rightarrow> [])
                 [1..<numPages s + 1])"

definition isLeafPage :: "BTreeIndex \<Rightarrow> PageId \<Rightarrow> bool" where
  "isLeafPage s p = (case pages s p of Some (LeafPage l) \<Rightarrow> True | _ \<Rightarrow> False)"

text \<open>The members of the index object that make up the scan state.\<close>

definition scanState ::
  "BTreeIndex \<Rightarrow> bool \<times> int \<times> PageId \<times> int \<times> int \<times> Operator \<times> Operator"
where
  "scanState s =
     (scanExecuting s, nextEntry s, currentPageNum s, lowValInt s, highValInt s, lowOp s, highOp s)"

section \<open>Concrete objects\<close>

text \<open>
  Zero-filled page content, and an index object before its constructor has run whose
  members are zero-filled as well.
\<close>

definition zeroLeaf :: LeafNodeInt where
  "zeroLeaf = \<lparr>L_numOccupied = 0, L_keyArray = (\<lambda>_. 0), ridArray = (\<lambda>_. (0, 0)),
               rightSibPageNo = 0\<rparr>"

definition zeroNonLeaf :: NonLeafNodeInt where
  "zeroNonLeaf = \<lparr>level = 0, N_numOccupied = 0, N_keyArray = (\<lambda>_. 0), pageNoArray = (\<lambda>_. 0)\<rparr>"

definition rawObject :: BTreeIndex where
  "rawObject =
     \<lparr>pages = Map.empty, numPages = 0,
      freshLeaf = (\<lambda>_. zeroLeaf), freshNonLeaf = (\<lambda>_. zeroNonLeaf),
      headerPageNum = 0, rootPageNum = 0, attributeType = INTEGER, attrByteOffset = 0,
      leafOccupancy = 0, nodeOccupancy = 0, onlyOneRoot = False, scanExecuting = False,
      nextEntry = 0, currentPageNum = 0, lowValInt = 0, highValInt = 0,
      lowOp = LT, highOp = LT\<rparr>"

text \<open>
  A freshly created index over an empty relation with leaf capacity 3 and internal
  capacity 2, and the entries with keys 10, 20, ..., 100, each with record id (key, 1).
\<close>

definition smallIndex :: "(error + BTreeIndex) option" where
  "smallIndex = BTreeIndex_create 8 rawObject 3 2 ''rel'' 0 INTEGER []"

definition entry :: "int \<Rightarrow> int \<times> RecordId" where
  "entry k = (k, (nat k, 1))"

definition insertInto ::
  "(error + BTreeIndex) option \<Rightarrow> (int \<times> RecordId) list \<Rightarrow> (error + BTreeIndex) option"
where
  "insertInto r es = (case r of Some (Inr s) \<Rightarrow> insertEntries 8 s es | _ \<Rightarrow> r)"

definition withFresh :: "int \<Rightarrow> BTreeIndex" where
  "withFresh n = rawObject\<lparr>freshNonLeaf := (\<lambda>_. zeroNonLeaf\<lparr>N_numOccupied := n\<rparr>)\<rparr>"

text \<open>A scan started on the result of a build and drained by repeated scanNext.\<close>

definition scanRange ::
  "nat \<Rightarrow> BTreeIndex \<Rightarrow> int \<Rightarrow> Operator \<Rightarrow> int \<Rightarrow> Operator
     \<Rightarrow> (error + RecordId list \<times> error) option"
where
  "scanRange n s low lop high hop =
     (case startScan n s low lop high hop of
        None \<Rightarrow> None
      | Some (Inl e, s') \<Rightarrow> Some (Inl e)
      | Some (Inr u, s') \<Rightarrow> map_option Inr (drain n s'))"

definition scanOf ::
  "(error + BTreeIndex) option \<Rightarrow> int \<Rightarrow> Operator \<Rightarrow> int \<Rightarrow> Operator
     \<Rightarrow> (error + RecordId list \<times> error) option"
where
  "scanOf r low lop high hop =
     (case r of Some (Inr s) \<Rightarrow> scanRange 20 s low lop high hop | _ \<Rightarrow> None)"

text \<open>What a startScan call leaves behind: its outcome, the active flag, the entry index,
  and what an endScan called next returns.\<close>

definition startScanOutcome ::
  "(error + BTreeIndex) option \<Rightarrow> int \<Rightarrow> Operator \<Rightarrow> int \<Rightarrow> Operator
     \<Rightarrow> ((error + unit) \<times> bool \<times> int \<times> (error + unit)) option"
where
  "startScanOutcome r low lop high hop =
     (case r of
        Some (Inr s) \<Rightarrow>
          map_option (\<lambda>(res, s'). (res, scanExecuting s', nextEntry s', fst (endScan s')))
            (startScan 8 s low lop high hop)
      | _ \<Rightarrow> None)"

text \<open>The root as the index object, the header page and the root page record it.\<close>

definition rootView ::
  "BTreeIndex \<Rightarrow> bool \<times> PageId \<times> PageId option \<times> (int \<times> int \<times> int \<times> PageId \<times> PageId) option"
where
  "rootView s =
     (onlyOneRoot s, rootPageNum s,
      (case pages s (headerPageNum s) of Some (MetaPage m) \<Rightarrow> Some (rootPageNo m) | _ \<Rightarrow> None),
      (case pages s (rootPageNum s) of
         Some (NonLeafPage n) \<Rightarrow>
           Some (level n, N_numOccupied n, N_keyArray n 0, pageNoArray n 0, pageNoArray n 1)
       | _ \<Rightarrow> None))"

text \<open>Opening the file a build has left, from an object \<open>s0\<close> not yet constructed.\<close>

definition reopen :: "BTreeIndex \<Rightarrow> (error + BTreeIndex) option \<Rightarrow> (error + BTreeIndex) option" where
  "reopen s0 r =
     (case r of
        Some (Inr s) \<Rightarrow> Some (BTreeIndex_open s0 (pages s) (numPages s) ''rel'' 0 INTEGER)
      | _ \<Rightarrow> r)"

text \<open>After open: the flag, whether the root page is a leaf, and where a search for key
  35 ends.\<close>

definition openView ::
  "BTreeIndex \<Rightarrow> bool \<times> bool \<times> (error + PageId \<times> PageId list) option"
where
  "openView s = (onlyOneRoot s, isLeafPage s (rootPageNum s), searchEntry 8 s 35 (rootPageNum s) [])"


text \<open>An array whose cells \<open>lo, ..., hi - 1\<close> have been copied one cell up.\<close>

definition shiftUp :: "(int \<Rightarrow> 'a) \<Rightarrow> int \<Rightarrow> int \<Rightarrow> int \<Rightarrow> 'a" where
  "shiftUp a lo hi t = (if lo < t \<and> t \<le> hi then a (t - 1) else a t)"

text \<open>
  The entry (key, record id) in a cell of a leaf, and the arrays the loop of splitLeaf
  builds: \<open>movedTop\<close> is the new leaf's array after the top \<open>i\<close> entries of the old
  leaf have moved into it, \<open>movedWithKey\<close> the same array once the new entry has been
  put below the top \<open>p\<close> entries and \<open>i - p\<close> further entries have moved, and
  \<open>insertedAt\<close> the old entries with the new one put at place \<open>q\<close>.
\<close>

definition entryAt :: "LeafNodeInt \<Rightarrow> int \<Rightarrow> int \<times> RecordId" where
  "entryAt l t = (L_keyArray l t, ridArray l t)"

definition movedTop :: "(int \<Rightarrow> 'a) \<Rightarrow> (int \<Rightarrow> 'a) \<Rightarrow> int \<Rightarrow> int \<Rightarrow> int \<Rightarrow> int \<Rightarrow> 'a" where
  "movedTop n0 e M L i t = (if M - i \<le> t \<and> t < M then e (t + L - M) else n0 t)"

definition movedWithKey ::
  "(int \<Rightarrow> 'a) \<Rightarrow> (int \<Rightarrow> 'a) \<Rightarrow> 'a \<Rightarrow> int \<Rightarrow> int \<Rightarrow> int \<Rightarrow> int \<Rightarrow> int \<Rightarrow> 'a"
where
  "movedWithKey n0 e x M L p i t =
     (if M - 1 - i \<le> t \<and> t < M - 1 - p then e (t + L - M + 1)
      else if t = M - 1 - p then x
      else if M - p \<le> t \<and> t < M then e (t + L - M)
      else n0 t)"

definition insertedAt :: "(int \<Rightarrow> 'a) \<Rightarrow> int \<Rightarrow> 'a \<Rightarrow> int \<Rightarrow> 'a" where
  "insertedAt e q x t = (if t < q then e t else if t = q then x else e (t - 1))"

text \<open>A full leaf of capacity 3 with the keys 10, 20, 30.\<close>

definition fullLeaf :: LeafNodeInt where
  "fullLeaf =
     \<lparr>L_numOccupied = 3,
      L_keyArray = (\<lambda>t. if t = 0 then 10 else if t = 1 then 20 else if t = 2 then 30 else 0),
      ridArray = (\<lambda>t. if t = 0 then (10, 1) else if t = 1 then (20, 1)
                       else if t = 2 then (30, 1) else (0, 0)),
      rightSibPageNo = 9\<rparr>"

section \<open>Occupancy of internal nodes\<close>

text \<open>
  Claim C5 says that no internal node ever holds more than Imax keys, because
  insertEntryInternal splits a full node. The test in insertEntryInternal is
  \<open>numOccupied > nodeOccupancy\<close>, so a node holding exactly \<open>nodeOccupancy\<close> keys takes
  one more. With leaf capacity 3 and internal capacity 2, inserting the keys
  10, 20, ..., 80 into a freshly created index leaves the internal node on page 4 with
  3 keys.
\<close>

theorem C5_internal_node_exceeds_capacity:
  "map_option (map_sum id (\<lambda>s. (nodeOccupancy s, internalOccupancies s)))
     (insertInto smallIndex (map entry [10, 20, 30, 40, 50, 60, 70, 80]))
   = Some (Inr (2, [(4, 3)]))"
  by code_simp

lemma insertEntryInternal_loop_occupied:
  "N_numOccupied (fst (insertEntryInternal_loop key n i)) = N_numOccupied n"
proof (induction key n i rule: insertEntryInternal_loop.induct)
  case (1 key n i)
  show ?case
  proof (cases "i < N_numOccupied n \<and> \<not> key > N_keyArray n (N_numOccupied n - 1 - i)")
    case True
    with 1 show ?thesis
      by (subst insertEntryInternal_loop.simps) (simp add: Let_def setKey_def setPageNo_def)
  next
    case False
    then show ?thesis
      by (subst insertEntryInternal_loop.simps) auto
  qed
qed

lemma insertEntryInternal_node_occupied:
  "N_numOccupied (insertEntryInternal_node key newPageNo splitFromLeaf n) = N_numOccupied n + 1"
proof -
  let ?n1 = "setPageNo n (N_numOccupied n + 1) (pageNoArray n (N_numOccupied n))"
  obtain n2 i where r: "insertEntryInternal_loop key ?n1 0 = (n2, i)"
    by (cases "insertEntryInternal_loop key ?n1 0")
  have "N_numOccupied n2 = N_numOccupied ?n1"
    using insertEntryInternal_loop_occupied [of key ?n1 0] r by simp
  then have "N_numOccupied n2 = N_numOccupied n"
    by (simp add: setPageNo_def)
  then show ?thesis
    unfolding insertEntryInternal_node_def Let_def r
    by (simp add: setPageNo_def setKey_def setOccupied_def)
qed

text \<open>
  For every capacity: an internal node that holds exactly \<open>nodeOccupancy\<close> keys is not
  split by insertEntryInternal; it is written back with \<open>nodeOccupancy + 1\<close> keys.
\<close>

lemma insertEntryInternal_full_node:
  assumes "pages s pageNo = Some (NonLeafPage n)"
    and "N_numOccupied n = nodeOccupancy s"
  shows "\<exists>s' n'. insertEntryInternal s key pageNo newPageNo visitedNodes splitFromLeaf = Inr s'
           \<and> pages s' pageNo = Some (NonLeafPage n')
           \<and> N_numOccupied n' = nodeOccupancy s + 1"
  using assms
  by (simp add: insertEntryInternal.simps readNonLeaf_def writePage_def
        insertEntryInternal_node_occupied)

section \<open>Round trip of insert and scan\<close>

text \<open>
  Claim C1 says that inserting distinct keys in any order into a freshly created index
  and scanning from the smallest to the largest key with non-strict bounds yields the
  record ids in ascending key order. With leaf capacity 3 and internal capacity 2 and
  zero-filled fresh pages, the keys 10, 20, ..., 100 followed by 65 are returned with
  65 after 80: the entry 65 was placed in the leaf of 90 and 100, because the internal
  node that was split lost the separators 70 and 90.
\<close>

theorem C1_scan_order_broken:
  "scanOf (insertInto smallIndex (map entry [10, 20, 30, 40, 50, 60, 70, 80, 90, 100, 65]))
     10 GTE 100 LTE
   = Some (Inr (map (snd \<circ> entry) [10, 20, 30, 40, 50, 60, 70, 80, 65, 90, 100],
                IndexScanCompleted))"
  by code_simp

section \<open>startScan when no key satisfies the low bound\<close>

text \<open>
  On a tree that is one empty root leaf, with valid operators and bounds, whether startScan
  raises NoSuchKeyFound is decided by the cell before the key array.
\<close>

lemma startScan_empty_root_leaf:
  assumes "onlyOneRoot s"
    and "pages s (rootPageNum s) = Some (LeafPage l)"
    and "L_numOccupied l = 0"
    and "lowVal \<le> highVal" "lop = GT \<or> lop = GTE" "hop = LT \<or> hop = LTE"
  shows "\<exists>r s'. startScan fuel s lowVal lop highVal hop = Some (r, s')
           \<and> (r = Inl NoSuchKeyFound \<longleftrightarrow>
                 highVal < L_keyArray l (- 1) \<or> (L_keyArray l (- 1) = highVal \<and> hop = LT))
           \<and> (r \<noteq> Inl NoSuchKeyFound \<longrightarrow> r = Inr () \<and> scanExecuting s' \<and> nextEntry s' = - 1)"
proof -
  have loop: "startScan_loop l lowVal lop 0 (- 1) = - 1"
    using assms(3) by (subst startScan_loop.simps) simp
  show ?thesis
    using assms
    by (auto simp: startScan_def searchEntry.simps readLeaf_def Let_def endScan_def loop)
qed

text \<open>
  Claim C3 says that startScan raises NoSuchKeyFound when the leaf it reaches holds no
  key satisfying the low bound, in particular on an empty tree. The entry index is
  initialised to -1 and compared with \<open>numOccupied\<close>, which it never equals; the key
  then compared with the high bound is \<open>keyArray[-1]\<close>. On the empty tree of a freshly
  created index with zero-filled pages, startScan(0, GTE, 10, LTE) returns normally with
  the scan active and the entry index -1.
\<close>

theorem C3_empty_tree_scan_starts:
  "startScanOutcome smallIndex 0 GTE 10 LTE = Some (Inr (), True, - 1, Inr ())"
  by code_simp

section \<open>scanNext at a leaf boundary\<close>

text \<open>
  When the current leaf is exhausted and the right sibling's first key equals the high
  bound, scanNext ends the scan whatever the high operator is.
\<close>

lemma scanNext_sibling_first_key_equal_high:
  assumes "scanExecuting s"
    and "pages s (currentPageNum s) = Some (LeafPage l)"
    and "nextEntry s \<noteq> - 1"
    and "\<not> nextEntry s + 1 < L_numOccupied l"
    and "rightSibPageNo l \<noteq> INVALID_NUMBER"
    and "pages s (rightSibPageNo l) = Some (LeafPage r)"
    and "L_numOccupied r \<noteq> 0"
    and "L_keyArray r 0 = highValInt s"
  shows "scanNext s = (Inr (ridArray l (nextEntry s)),
                       s\<lparr>currentPageNum := rightSibPageNo l, nextEntry := - 1\<rparr>)"
  using assms by (simp add: scanNext_def readLeaf_def Let_def)

text \<open>
  Claim C4 says that when scanNext moves to the right sibling, a first key equal to the
  high bound is in range if the high operator is LTE. The test on the sibling's first
  key is \<open>keyArray[0] < highValInt\<close>, so an equal key ends the scan. With leaves
  [10, 20] and [30, 40], the scan of [10, 30] with LTE returns the record ids of 10 and
  20 only.
\<close>

theorem C4_sibling_first_key_equal_high_dropped:
  "scanOf (insertInto smallIndex (map entry [10, 20, 30, 40])) 10 GTE 30 LTE
   = Some (Inr (map (snd \<circ> entry) [10, 20], IndexScanCompleted))"
  by code_simp

section \<open>startScan with a bad range or bad operators\<close>

text \<open>
  For every object and every fuel: a startScan that fails validation returns with the
  scan active, and the endScan that follows does not raise.
\<close>

lemma startScan_bad_range:
  assumes "highVal < lowVal"
  shows "\<exists>s'. startScan fuel s lowVal lop highVal hop = Some (Inl BadScanrange, s')
           \<and> scanExecuting s' \<and> fst (endScan s') = Inr ()"
  using assms by (simp add: startScan_def endScan_def Let_def)

lemma startScan_bad_opcodes:
  assumes "lowVal \<le> highVal"
    and "(lop \<noteq> GT \<and> lop \<noteq> GTE) \<or> (hop \<noteq> LT \<and> hop \<noteq> LTE)"
  shows "\<exists>s'. startScan fuel s lowVal lop highVal hop = Some (Inl BadOpcodes, s')
           \<and> scanExecuting s' \<and> fst (endScan s') = Inr ()"
  using assms by (auto simp: startScan_def endScan_def Let_def)

text \<open>
  Claim C6 says that a startScan that raises BadScanrange or BadOpcodes leaves the scan
  inactive, so that a following endScan raises ScanNotInitialized. startScan sets
  \<open>scanExecuting\<close> before it validates its arguments and does not reset it on these two
  throws: after either, the flag is true and endScan returns normally.
\<close>

theorem C6_failed_validation_leaves_scan_active:
  "startScanOutcome smallIndex 5 GTE 2 LTE = Some (Inl BadScanrange, True, 0, Inr ())
   \<and> startScanOutcome smallIndex 2 LTE 5 LTE = Some (Inl BadOpcodes, True, 0, Inr ())
   \<and> startScanOutcome smallIndex 2 GTE 5 GTE = Some (Inl BadOpcodes, True, 0, Inr ())"
  by code_simp

section \<open>The root created by a leaf split\<close>

text \<open>
  Claim C7 says that the root created when the root leaf splits has N = 1 whatever the
  new page held before. The root's \<open>numOccupied\<close> is incremented, not assigned: when the
  page handed out by allocPage holds 7 there, the root has level 1, K[0] = 30,
  C[0] = 2, C[1] = 3, the header and the object point to it, the flag is cleared, and
  N = 8.
\<close>

theorem C7_new_root_occupancy_from_page_content:
  "map_option (map_sum id rootView)
     (case BTreeIndex_create 8 (withFresh 7) 3 2 ''rel'' 0 INTEGER [] of
        Some (Inr s) \<Rightarrow> insertEntries 8 s (map entry [10, 20, 30, 40])
      | r \<Rightarrow> r)
   = Some (Inr (False, 4, Some 4, Some (1, 8, 30, 2, 3)))"
  by code_simp

section \<open>The flag onlyOneRoot after open\<close>

lemma BTreeIndex_open_onlyOneRoot:
  "BTreeIndex_open s0 filePages fileNumPages relName off ty = Inr s
     \<Longrightarrow> onlyOneRoot s = onlyOneRoot s0"
  by (auto simp: BTreeIndex_open_def Let_def split: sum.splits if_splits)

text \<open>
  Claim C8 says that after the constructor has opened an existing index file,
  \<open>onlyOneRoot\<close> tells whether the root page is a leaf. The open path never assigns the
  flag. Opening the two-level file built from 10, 20, 30, 40 with an object whose flag
  holds true leaves it true, and a search returns the internal root page 4 as the leaf;
  opening the one-leaf file built from 10, 20, 30 with an object whose flag holds false
  leaves it false, and a search reads the root leaf as an internal node.
\<close>

theorem C8_open_does_not_set_flag:
  "map_option (map_sum id openView)
     (reopen (rawObject\<lparr>onlyOneRoot := True\<rparr>)
        (insertInto smallIndex (map entry [10, 20, 30, 40])))
   = Some (Inr (True, False, Some (Inr (4, []))))
   \<and> map_option (map_sum id openView)
       (reopen (rawObject\<lparr>onlyOneRoot := False\<rparr>)
          (insertInto smallIndex (map entry [10, 20, 30])))
     = Some (Inr (False, True, Some (Inl WrongNodeKind)))"
  by code_simp

section \<open>Reading the outcome of a run\<close>

lemma case_Some_InrD:
  "(case r of Some (Inr s) \<Rightarrow> P s | _ \<Rightarrow> False) \<Longrightarrow> \<exists>s. r = Some (Inr s) \<and> P s"
  by (auto split: option.splits sum.splits)

lemma case_LeafPageD:
  "(case pg of Some (LeafPage l) \<Rightarrow> P l | _ \<Rightarrow> False) \<Longrightarrow> \<exists>l. pg = Some (LeafPage l) \<and> P l"
  by (auto split: option.splits page.splits)

section \<open>A duplicate key in a leaf with room\<close>

lemma shiftUp_step: "lo < hi \<Longrightarrow> shiftUp (a(hi := a (hi - 1))) lo (hi - 1) = shiftUp a lo hi"
  by (auto simp: shiftUp_def fun_eq_iff)

lemma shiftUp_empty: "hi \<le> lo \<Longrightarrow> shiftUp a lo hi = a"
  by (auto simp: shiftUp_def fun_eq_iff)

lemma insertEntryLeaf_loop_result:
  assumes "i \<le> i'" "i' \<le> L_numOccupied l"
    and "\<forall>m. i \<le> m \<and> m < i' \<longrightarrow> key \<le> L_keyArray l (L_numOccupied l - 1 - m)"
    and "i' < L_numOccupied l \<longrightarrow> key > L_keyArray l (L_numOccupied l - 1 - i')"
  shows "insertEntryLeaf_loop key l i =
          (l\<lparr>ridArray := shiftUp (ridArray l) (L_numOccupied l - i') (L_numOccupied l - i),
             L_keyArray := shiftUp (L_keyArray l) (L_numOccupied l - i') (L_numOccupied l - i)\<rparr>, i')"
  using assms
proof (induction key l i rule: insertEntryLeaf_loop.induct)
  case (1 key l i)
  let ?n = "L_numOccupied l"
  show ?case
  proof (cases "i = i'")
    case True
    with "1.prems" show ?thesis
      by (subst insertEntryLeaf_loop.simps) (auto simp: shiftUp_empty)
  next
    case False
    with "1.prems" have lt: "i < i'" "i < ?n" and le: "key \<le> L_keyArray l (?n - 1 - i)"
      by auto
    let ?l1 = "l\<lparr>ridArray := (ridArray l)(?n - 1 - i + 1 := ridArray l (?n - 1 - i)),
                  L_keyArray := (L_keyArray l)(?n - 1 - i + 1 := L_keyArray l (?n - 1 - i))\<rparr>"
    have step: "insertEntryLeaf_loop key l i = insertEntryLeaf_loop key ?l1 (i + 1)"
      using lt le by (subst insertEntryLeaf_loop.simps) simp
    have IH: "insertEntryLeaf_loop key ?l1 (i + 1) =
          (?l1\<lparr>ridArray := shiftUp (ridArray ?l1) (L_numOccupied ?l1 - i') (L_numOccupied ?l1 - (i + 1)),
             L_keyArray := shiftUp (L_keyArray ?l1) (L_numOccupied ?l1 - i') (L_numOccupied ?l1 - (i + 1))\<rparr>, i')"
      using lt le "1.prems" by (intro "1.IH") auto
    have eq: "?n - 1 - i + 1 = ?n - i" "?n - 1 - i = ?n - i - 1" "?n - (i + 1) = ?n - i - 1"
      by simp_all
    show ?thesis
      unfolding step IH using lt
      by (simp add: eq shiftUp_step)
  qed
qed


lemma length_leaf_entries [simp]: "length (leaf_entries l) = nat (L_numOccupied l)"
  by (simp add: leaf_entries_def)

lemma length_leaf_keys [simp]: "length (leaf_keys l) = nat (L_numOccupied l)"
  by (simp add: leaf_keys_def)

lemma leaf_entries_nth:
  "i < nat (L_numOccupied l) \<Longrightarrow> leaf_entries l ! i = (L_keyArray l (int i), ridArray l (int i))"
  by (simp add: leaf_entries_def)

lemma leaf_keys_nth: "i < nat (L_numOccupied l) \<Longrightarrow> leaf_keys l ! i = L_keyArray l (int i)"
  by (simp add: leaf_keys_def leaf_entries_nth)

lemma leaf_keys_ascending:
  "sorted_wrt (<) (leaf_keys l) \<longleftrightarrow>
     (\<forall>a b. 0 \<le> a \<and> a < b \<and> b < L_numOccupied l \<longrightarrow> L_keyArray l a < L_keyArray l b)"
proof
  assume srt: "sorted_wrt (<) (leaf_keys l)"
  show "\<forall>a b. 0 \<le> a \<and> a < b \<and> b < L_numOccupied l \<longrightarrow> L_keyArray l a < L_keyArray l b"
  proof (intro allI impI)
    fix a b assume ab: "0 \<le> a \<and> a < b \<and> b < L_numOccupied l"
    then have "leaf_keys l ! nat a < leaf_keys l ! nat b"
      using srt [unfolded sorted_wrt_iff_nth_less, rule_format, of "nat a" "nat b"] by simp
    with ab show "L_keyArray l a < L_keyArray l b"
      by (simp add: leaf_keys_nth)
  qed
next
  assume c: "\<forall>a b. 0 \<le> a \<and> a < b \<and> b < L_numOccupied l \<longrightarrow> L_keyArray l a < L_keyArray l b"
  show "sorted_wrt (<) (leaf_keys l)"
    unfolding sorted_wrt_iff_nth_less
  proof (intro allI impI)
    fix i j assume "i < j" "j < length (leaf_keys l)"
    then show "leaf_keys l ! i < leaf_keys l ! j"
      using c [rule_format, of "int i" "int j"] by (simp add: leaf_keys_nth)
  qed
qed

lemma insertEntryLeaf_node_duplicate:
  assumes srt: "sorted_wrt (<) (leaf_keys l)"
    and j: "0 \<le> j" "j < L_numOccupied l" "L_keyArray l j = key"
  shows "insertEntryLeaf_node key rid l =
           l\<lparr>ridArray := (shiftUp (ridArray l) j (L_numOccupied l))(j := rid),
             L_keyArray := (shiftUp (L_keyArray l) j (L_numOccupied l))(j := key),
             L_numOccupied := L_numOccupied l + 1\<rparr>"
proof -
  let ?n = "L_numOccupied l"
  from srt have asc: "\<And>a b. 0 \<le> a \<Longrightarrow> a < b \<Longrightarrow> b < ?n \<Longrightarrow> L_keyArray l a < L_keyArray l b"
    by (simp add: leaf_keys_ascending)
  have above: "\<forall>m. 0 \<le> m \<and> m < ?n - j \<longrightarrow> key \<le> L_keyArray l (?n - 1 - m)"
  proof (intro allI impI)
    fix m assume m: "0 \<le> m \<and> m < ?n - j"
    show "key \<le> L_keyArray l (?n - 1 - m)"
    proof (cases "?n - 1 - m = j")
      case True then show ?thesis using j by simp
    next
      case False
      then have "L_keyArray l j < L_keyArray l (?n - 1 - m)"
        using m j by (intro asc) auto
      then show ?thesis using j by simp
    qed
  qed
  have below: "?n - j < ?n \<longrightarrow> key > L_keyArray l (?n - 1 - (?n - j))"
  proof
    assume "?n - j < ?n"
    then have "L_keyArray l (j - 1) < L_keyArray l j"
      using j by (intro asc) auto
    then show "key > L_keyArray l (?n - 1 - (?n - j))"
      using j by (simp add: algebra_simps)
  qed
  have "insertEntryLeaf_loop key l 0 =
          (l\<lparr>ridArray := shiftUp (ridArray l) (?n - (?n - j)) (?n - 0),
             L_keyArray := shiftUp (L_keyArray l) (?n - (?n - j)) (?n - 0)\<rparr>, ?n - j)"
    using j above below by (intro insertEntryLeaf_loop_result) auto
  then show ?thesis
    by (simp add: insertEntryLeaf_node_def)
qed

lemma insertEntryLeaf_duplicate_key:
  assumes pg: "pages s pageNo = Some (LeafPage l)"
    and room: "L_numOccupied l < leafOccupancy s"
    and srt: "sorted_wrt (<) (leaf_keys l)"
    and j: "0 \<le> j" "j < L_numOccupied l" "L_keyArray l j = key"
  shows "\<exists>l'. insertEntryLeaf s key rid pageNo visitedNodes
                 = Inr (writePage s pageNo (LeafPage l'))
           \<and> L_numOccupied l' = L_numOccupied l + 1
           \<and> leaf_entries l'
               = take (nat j) (leaf_entries l) @ (key, rid) # drop (nat j) (leaf_entries l)
           \<and> hd (drop (nat j) (leaf_entries l)) = (key, ridArray l j)
           \<and> sorted_wrt (\<le>) (leaf_keys l')
           \<and> \<not> sorted_wrt (<) (leaf_keys l')"
proof -
  let ?n = "L_numOccupied l"
  let ?l' = "insertEntryLeaf_node key rid l"
  have node: "?l' = l\<lparr>ridArray := (shiftUp (ridArray l) j ?n)(j := rid),
                       L_keyArray := (shiftUp (L_keyArray l) j ?n)(j := key),
                       L_numOccupied := ?n + 1\<rparr>"
    using srt j by (rule insertEntryLeaf_node_duplicate)
  from srt have asc: "\<And>a b. 0 \<le> a \<Longrightarrow> a < b \<Longrightarrow> b < ?n \<Longrightarrow> L_keyArray l a < L_keyArray l b"
    by (simp add: leaf_keys_ascending)
  have ins: "insertEntryLeaf s key rid pageNo visitedNodes = Inr (writePage s pageNo (LeafPage ?l'))"
    using pg room by (simp add: insertEntryLeaf_def readLeaf_def)
  have occ: "L_numOccupied ?l' = ?n + 1"
    by (simp add: node)
  have keys': "\<And>t. L_keyArray ?l' t =
                 (if t = j then key else if j < t \<and> t \<le> ?n then L_keyArray l (t - 1) else L_keyArray l t)"
    by (simp add: node shiftUp_def)
  have rids': "\<And>t. ridArray ?l' t =
                 (if t = j then rid else if j < t \<and> t \<le> ?n then ridArray l (t - 1) else ridArray l t)"
    by (simp add: node shiftUp_def)
  have ents: "leaf_entries ?l'
               = take (nat j) (leaf_entries l) @ (key, rid) # drop (nat j) (leaf_entries l)"
  proof (rule nth_equalityI)
    show "length (leaf_entries ?l')
            = length (take (nat j) (leaf_entries l) @ (key, rid) # drop (nat j) (leaf_entries l))"
      using j by (simp add: occ)
  next
    fix i assume "i < length (leaf_entries ?l')"
    then have i: "int i < ?n + 1" by (simp add: occ)
    consider "int i < j" | "int i = j" | "j < int i" by linarith
    then show "leaf_entries ?l' ! i
        = (take (nat j) (leaf_entries l) @ (key, rid) # drop (nat j) (leaf_entries l)) ! i"
    proof cases
      case 1
      then have "i < nat j" "i < nat ?n" using j by linarith+
      then show ?thesis using 1
        by (simp add: leaf_entries_nth occ keys' rids' nth_append)
    next
      case 2
      then have "i = nat j" by simp
      then show ?thesis using i j
        by (simp add: leaf_entries_nth occ keys' rids' nth_append)
    next
      case 3
      then have f: "nat j + (i - nat j - 1) = i - 1" "int (i - 1) = int i - 1" "i - 1 < nat ?n"
        "\<not> i < nat j" "i - nat j \<noteq> 0" "i < nat (?n + 1)" "int i \<noteq> j" "int i \<le> ?n"
        using i j by auto
      have "leaf_entries ?l' ! i = (L_keyArray l (int i - 1), ridArray l (int i - 1))"
        using 3 f by (simp add: leaf_entries_nth occ keys' rids')
      moreover have "(take (nat j) (leaf_entries l) @ (key, rid) # drop (nat j) (leaf_entries l)) ! i
                       = leaf_entries l ! (i - 1)"
        using f j by (simp add: nth_append nth_Cons')
      ultimately show ?thesis using f
        by (simp add: leaf_entries_nth)
    qed
  qed
  have old: "hd (drop (nat j) (leaf_entries l)) = (key, ridArray l j)"
    using j by (simp add: hd_drop_conv_nth leaf_entries_nth)
  have mono: "sorted_wrt (\<le>) (leaf_keys ?l')"
    unfolding sorted_wrt_iff_nth_less
  proof (intro allI impI)
    fix a b assume ab: "a < b" "b < length (leaf_keys ?l')"
    then have b: "int b < ?n + 1" by (simp add: occ)
    let ?f = "\<lambda>t. if t \<le> j then t else t - 1"
    have k: "\<And>t. 0 \<le> t \<Longrightarrow> t \<le> ?n \<Longrightarrow> L_keyArray ?l' t = L_keyArray l (?f t)"
      using j by (auto simp: keys')
    have "L_keyArray l (?f (int a)) \<le> L_keyArray l (?f (int b))"
    proof (cases "?f (int a) = ?f (int b)")
      case True then show ?thesis by simp
    next
      case False
      then have "L_keyArray l (?f (int a)) < L_keyArray l (?f (int b))"
        using ab b j by (intro asc) (auto split: if_splits)
      then show ?thesis by simp
    qed
    then show "leaf_keys ?l' ! a \<le> leaf_keys ?l' ! b"
      using ab b by (simp add: leaf_keys_nth occ k)
  qed
  have notstrict: "\<not> sorted_wrt (<) (leaf_keys ?l')"
  proof
    assume "sorted_wrt (<) (leaf_keys ?l')"
    then have "L_keyArray ?l' j < L_keyArray ?l' (j + 1)"
      using j by (simp add: leaf_keys_ascending occ)
    then show False using j by (simp add: keys')
  qed
  from ins occ ents old mono notstrict show ?thesis by blast
qed

text \<open>
  Claim C9: when insertEntry is called with a key equal to the key stored at index \<open>j\<close>
  of the leaf the search reaches, and that leaf is not full and has strictly ascending
  keys, the call returns without error; the new pair is stored at index \<open>j\<close>,
  immediately before the old entry with that key, which moves to \<open>j + 1\<close>; the
  occupancy is incremented; the keys of the leaf are afterwards ascending but not
  strictly ascending.
\<close>

theorem C9_duplicate_key_in_leaf_with_room:
  assumes srch: "searchEntry fuel s key (rootPageNum s) [] = Some (Inr (pageNo, visitedNodes))"
    and pg: "pages s pageNo = Some (LeafPage l)"
    and room: "L_numOccupied l < leafOccupancy s"
    and srt: "sorted_wrt (<) (leaf_keys l)"
    and j: "0 \<le> j" "j < L_numOccupied l" "L_keyArray l j = key"
  shows "\<exists>l'. insertEntry fuel s key rid = Some (Inr (writePage s pageNo (LeafPage l')))
           \<and> L_numOccupied l' = L_numOccupied l + 1
           \<and> leaf_entries l'
               = take (nat j) (leaf_entries l) @ (key, rid) # drop (nat j) (leaf_entries l)
           \<and> hd (drop (nat j) (leaf_entries l)) = (key, ridArray l j)
           \<and> sorted_wrt (\<le>) (leaf_keys l')
           \<and> \<not> sorted_wrt (<) (leaf_keys l')"
proof -
  have "insertEntry fuel s key rid = Some (insertEntryLeaf s key rid pageNo visitedNodes)"
    by (simp add: insertEntry_def srch)
  then show ?thesis
    using insertEntryLeaf_duplicate_key [OF pg room srt j, of rid visitedNodes] by auto
qed

theorem C9_duplicate_key_witness:
  "\<exists>s l l'. insertInto smallIndex (map entry [10, 20]) = Some (Inr s)
      \<and> searchEntry 8 s 10 (rootPageNum s) [] = Some (Inr (2, []))
      \<and> pages s 2 = Some (LeafPage l)
      \<and> L_numOccupied l < leafOccupancy s
      \<and> sorted_wrt (<) (leaf_keys l)
      \<and> L_keyArray l 0 = 10
      \<and> insertEntry 8 s 10 (7, 7) = Some (Inr (writePage s 2 (LeafPage l')))
      \<and> leaf_entries l' = [(10, (7, 7)), (10, (10, 1)), (20, (20, 1))]
      \<and> \<not> sorted_wrt (<) (leaf_keys l')"
proof -
  have "case insertInto smallIndex (map entry [10, 20]) of
          Some (Inr s) \<Rightarrow>
            (case pages s 2 of
               Some (LeafPage l) \<Rightarrow>
                 searchEntry 8 s 10 (rootPageNum s) [] = Some (Inr (2, []))
                 \<and> L_numOccupied l < leafOccupancy s \<and> sorted_wrt (<) (leaf_keys l)
                 \<and> 0 < L_numOccupied l \<and> L_keyArray l 0 = 10
                 \<and> leaf_entries l = [(10, (10, 1)), (20, (20, 1))]
             | _ \<Rightarrow> False)
        | _ \<Rightarrow> False"
    by code_simp
  then obtain s l where s: "insertInto smallIndex (map entry [10, 20]) = Some (Inr s)"
    and l: "pages s 2 = Some (LeafPage l)"
       "searchEntry 8 s 10 (rootPageNum s) [] = Some (Inr (2, []))"
       "L_numOccupied l < leafOccupancy s"
       "sorted_wrt (<) (leaf_keys l)" "0 < L_numOccupied l" "L_keyArray l 0 = 10"
       "leaf_entries l = [(10, (10, 1)), (20, (20, 1))]"
    by (blast dest!: case_Some_InrD case_LeafPageD)
  from C9_duplicate_key_in_leaf_with_room [OF l(2) l(1) l(3) l(4) _ l(5) l(6), of "(7, 7)"]
  obtain l' where "insertEntry 8 s 10 (7, 7) = Some (Inr (writePage s 2 (LeafPage l')))"
    "leaf_entries l' = take (nat 0) (leaf_entries l) @ (10, (7, 7)) # drop (nat 0) (leaf_entries l)"
    "\<not> sorted_wrt (<) (leaf_keys l')"
    by auto
  with s l show ?thesis by auto
qed

section \<open>insertEntry and the scan state\<close>

lemma scanState_writePage [simp]: "scanState (writePage s p pg) = scanState s"
  by (simp add: scanState_def writePage_def)

lemma scanState_setHeaderRoot: "setHeaderRoot s r = Inr s' \<Longrightarrow> scanState s' = scanState s"
  by (auto simp: setHeaderRoot_def split: sum.splits)

lemma scanState_other_members [simp]:
  "scanState (s\<lparr>rootPageNum := r\<rparr>) = scanState s"
  "scanState (s\<lparr>onlyOneRoot := b\<rparr>) = scanState s"
  "scanState (s\<lparr>numPages := n\<rparr>) = scanState s"
  by (simp_all add: scanState_def)

lemma scanState_internal:
  "insertEntryInternal s key pageNo newPageNo visitedNodes sfl = Inr s'
     \<Longrightarrow> scanState s' = scanState s"
  "splitInternal s key pageNo newPageNo visitedNodes sfl = Inr s'
     \<Longrightarrow> scanState s' = scanState s"
proof (induction s key pageNo newPageNo visitedNodes sfl
         and s key pageNo newPageNo visitedNodes sfl
       arbitrary: s' and s' rule: insertEntryInternal_splitInternal.induct)
  case (1 s key pageNo newPageNo visitedNodes splitFromLeaf)
  from "1.prems" show ?case
    by (subst (asm) insertEntryInternal.simps)
       (auto split: sum.splits if_splits dest: "1.IH")
next
  case (2 s key pageNo newPageNo visitedNodes splitFromLeaf)
  from "2.prems" show ?case
    by (subst (asm) splitInternal.simps)
       (auto simp: Let_def allocPage_def
             split: sum.splits if_splits prod.splits option.splits
             dest!: "2.IH" scanState_setHeaderRoot)
qed

lemma scanState_splitLeaf:
  "splitLeaf s key rid pageNo visitedNodes = Inr s' \<Longrightarrow> scanState s' = scanState s"
  by (auto simp: splitLeaf_def Let_def allocPage_def
           split: sum.splits if_splits prod.splits
           dest!: scanState_internal(1) scanState_setHeaderRoot)

lemma scanState_insertEntryLeaf:
  "insertEntryLeaf s key rid pageNo visitedNodes = Inr s' \<Longrightarrow> scanState s' = scanState s"
  by (auto simp: insertEntryLeaf_def split: sum.splits if_splits dest!: scanState_splitLeaf)

text \<open>
  Claim C10: an insertEntry call that returns, whether it only writes a leaf, splits a
  leaf, splits internal nodes or installs a new root, leaves the members scanExecuting,
  nextEntry, currentPageNum, lowValInt, highValInt, lowOp and highOp as they were.
\<close>

theorem C10_insertEntry_keeps_scan_state:
  assumes "insertEntry fuel s key rid = Some (Inr s')"
  shows "scanExecuting s' = scanExecuting s \<and> nextEntry s' = nextEntry s
     \<and> currentPageNum s' = currentPageNum s \<and> lowValInt s' = lowValInt s
     \<and> highValInt s' = highValInt s \<and> lowOp s' = lowOp s \<and> highOp s' = highOp s"
proof -
  from assms have "scanState s' = scanState s"
    by (auto simp: insertEntry_def split: option.splits sum.splits prod.splits
             dest!: scanState_insertEntryLeaf)
  then show ?thesis by (simp add: scanState_def)
qed

theorem C10_insertEntry_witness:
  "\<exists>s s'. insertInto smallIndex (map entry [10, 20, 30, 40, 50, 60, 70, 80, 90]) = Some (Inr s)
      \<and> insertEntry 8 s 100 (100, 1) = Some (Inr s')
      \<and> numPages s' = numPages s + 3
      \<and> rootPageNum s' \<noteq> rootPageNum s
      \<and> scanExecuting s' = scanExecuting s \<and> nextEntry s' = nextEntry s
      \<and> currentPageNum s' = currentPageNum s \<and> lowValInt s' = lowValInt s
      \<and> highValInt s' = highValInt s \<and> lowOp s' = lowOp s \<and> highOp s' = highOp s"
proof -
  have "case insertInto smallIndex (map entry [10, 20, 30, 40, 50, 60, 70, 80, 90]) of
          Some (Inr s) \<Rightarrow>
            (case insertEntry 8 s 100 (100, 1) of
               Some (Inr s') \<Rightarrow> numPages s' = numPages s + 3 \<and> rootPageNum s' \<noteq> rootPageNum s
             | _ \<Rightarrow> False)
        | _ \<Rightarrow> False"
    by code_simp
  then obtain s s' where
    s: "insertInto smallIndex (map entry [10, 20, 30, 40, 50, 60, 70, 80, 90]) = Some (Inr s)"
    and s': "insertEntry 8 s 100 (100, 1) = Some (Inr s')"
       "numPages s' = numPages s + 3" "rootPageNum s' \<noteq> rootPageNum s"
    by (blast dest!: case_Some_InrD)
  from C10_insertEntry_keeps_scan_state [OF s'(1)] s s' show ?thesis by blast
qed

section \<open>The partition made by splitLeaf\<close>

lemma entryAt_simps [simp]:
  "entryAt (l\<lparr>L_numOccupied := n\<rparr>) = entryAt l"
  "entryAt (l\<lparr>rightSibPageNo := p\<rparr>) = entryAt l"
  by (auto simp: entryAt_def fun_eq_iff)

lemma entryAt_key: "L_keyArray l t = fst (entryAt l t)" and entryAt_rid: "ridArray l t = snd (entryAt l t)"
  by (simp_all add: entryAt_def)

lemma entryAt_move:
  "entryAt (new\<lparr>ridArray := (ridArray new)(a := ridArray cur b),
                  L_keyArray := (L_keyArray new)(a := L_keyArray cur b),
                  L_numOccupied := n\<rparr>)
     = (entryAt new)(a := entryAt cur b)"
  by (auto simp: entryAt_def fun_eq_iff)

lemma movedWithKey_step:
  "p < i \<Longrightarrow> a = M - 2 - i \<Longrightarrow> b = L - 1 - i
     \<Longrightarrow> (movedWithKey n0 e x M L p i)(a := e b) = movedWithKey n0 e x M L p (i + 1)"
  by (auto simp: fun_eq_iff movedWithKey_def intro!: arg_cong [where f = e])

lemma movedWithKey_first_step:
  "a = M - 2 - p \<Longrightarrow> b = L - 1 - p
     \<Longrightarrow> (movedWithKey n0 e x M L p p)(a := e b) = movedWithKey n0 e x M L p (p + 1)"
  by (auto simp: fun_eq_iff movedWithKey_def intro!: arg_cong [where f = e])

lemma movedTop_key:
  "a = M - 1 - p \<Longrightarrow> (movedTop n0 e M L p)(a := x) = movedWithKey n0 e x M L p p"
  by (auto simp: fun_eq_iff movedWithKey_def movedTop_def)

lemma movedTop_step:
  "0 \<le> i \<Longrightarrow> a = M - 1 - i \<Longrightarrow> b = L - 1 - i
     \<Longrightarrow> (movedTop n0 e M L i)(a := e b) = movedTop n0 e M L (i + 1)"
  by (auto simp: fun_eq_iff movedTop_def intro!: arg_cong [where f = e])

lemma shiftUp_extend:
  "lo \<le> hi \<Longrightarrow> a = lo \<Longrightarrow> b = lo - 1 \<Longrightarrow> (shiftUp e lo hi)(a := shiftUp e lo hi b) = shiftUp e (lo - 1) hi"
  by (auto simp: fun_eq_iff shiftUp_def)

lemma entryAt_shift:
  "entryAt (cur\<lparr>L_keyArray := (L_keyArray cur)(a := L_keyArray cur b),
                  ridArray := (ridArray cur)(a := ridArray cur b)\<rparr>)
     = (entryAt cur)(a := entryAt cur b)"
  by (auto simp: entryAt_def fun_eq_iff)

lemma entryAt_put:
  "entryAt (cur\<lparr>L_numOccupied := n, ridArray := (ridArray cur)(a := r),
                  L_keyArray := (L_keyArray cur)(a := k)\<rparr>)
     = (entryAt cur)(a := (k, r))"
  by (auto simp: entryAt_def fun_eq_iff)


text \<open>Phase 3: the new key is already in the new leaf, entries keep moving until it is full.\<close>

lemma splitLeaf_loop_phase3:
  assumes M: "M = L + 1 - c"
    and below: "\<forall>t. 0 \<le> t \<and> t < L - p \<longrightarrow> fst (e t) \<le> key"
    and p: "0 \<le> p" "p < i" "i \<le> M - 1" "M \<le> L"
    and cur: "entryAt cur = e" "L_numOccupied cur = L - i"
    and new: "L_numOccupied new = i + 1" "entryAt new = movedWithKey n0 e x M L p i"
  shows "case splitLeaf_loop L c key rid cur new True i of
           (cur', new') \<Rightarrow>
             entryAt cur' = e \<and> L_numOccupied cur' = L + 1 - M
             \<and> rightSibPageNo cur' = rightSibPageNo cur
             \<and> L_numOccupied new' = M
             \<and> entryAt new' = movedWithKey n0 e x M L p (M - 1)
             \<and> rightSibPageNo new' = rightSibPageNo new"
  using p cur new
proof (induction "nat (M - 1 - i)" arbitrary: cur new i)
  case 0
  then have i: "i = M - 1" by simp
  have k: "L_keyArray cur (L - 1 - i) \<le> key"
    using below 0 by (simp add: entryAt_key)
  have "splitLeaf_loop L c key rid cur new True i = (cur, new)"
    using i 0 k M by (subst splitLeaf_loop.simps) simp
  then show ?case using 0 i by simp
next
  case (Suc n)
  then have i: "i < M - 1" "i < L" by auto
  have k: "L_keyArray cur (L - 1 - i) \<le> key"
    using below Suc.prems by (simp add: entryAt_key)
  let ?cur1 = "cur\<lparr>L_numOccupied := L_numOccupied cur - 1\<rparr>"
  let ?new1 = "new\<lparr>ridArray := (ridArray new)(L + 1 - c - 2 - i := ridArray cur (L - i - 1)),
                    L_keyArray := (L_keyArray new)(L + 1 - c - 2 - i := L_keyArray cur (L - i - 1)),
                    L_numOccupied := L_numOccupied new + 1\<rparr>"
  have step: "splitLeaf_loop L c key rid cur new True i
                = splitLeaf_loop L c key rid ?cur1 ?new1 True (i + 1)"
    using i k M Suc.prems by (subst splitLeaf_loop.simps) simp
  have "entryAt ?new1 = (entryAt new)(L + 1 - c - 2 - i := entryAt cur (L - i - 1))"
    by (rule entryAt_move)
  also have "\<dots> = movedWithKey n0 e x M L p (i + 1)"
    unfolding Suc.prems
    by (rule movedWithKey_step) (use Suc.prems M in simp_all)
  finally have e1: "entryAt ?new1 = movedWithKey n0 e x M L p (i + 1)" .
  have "case splitLeaf_loop L c key rid ?cur1 ?new1 True (i + 1) of
           (cur', new') \<Rightarrow>
             entryAt cur' = e \<and> L_numOccupied cur' = L + 1 - M
             \<and> rightSibPageNo cur' = rightSibPageNo ?cur1
             \<and> L_numOccupied new' = M
             \<and> entryAt new' = movedWithKey n0 e x M L p (M - 1)
             \<and> rightSibPageNo new' = rightSibPageNo ?new1"
    using Suc.prems i Suc.hyps(2) e1
    by (intro Suc.hyps(1)) auto
  then show ?case
    unfolding step by simp
qed

text \<open>Phase 2: the new leaf is full, the entries above the key are shifted up by one.\<close>

lemma splitLeaf_loop_phase2:
  assumes M: "M = L + 1 - c"
    and below: "\<forall>t. 0 \<le> t \<and> t < L - p \<longrightarrow> fst (e t) \<le> key"
    and above: "\<forall>t. L - p \<le> t \<and> t < L \<longrightarrow> key < fst (e t)"
    and p: "0 \<le> M" "M \<le> i" "i \<le> p" "p \<le> L" "i < L"
    and cur: "entryAt cur = shiftUp e (L - i) (L - M)" "L_numOccupied cur = L - M"
    and new: "L_numOccupied new = M"
  shows "case splitLeaf_loop L c key rid cur new False i of
           (cur', new') \<Rightarrow>
             entryAt cur' = (shiftUp e (L - p) (L - M))(L - p := (key, rid))
             \<and> L_numOccupied cur' = L + 1 - M
             \<and> rightSibPageNo cur' = rightSibPageNo cur
             \<and> new' = new"
  using p cur
proof (induction "nat (p - i)" arbitrary: cur i)
  case 0
  then have i: "i = p" by simp
  have "L_keyArray cur (L - 1 - i) = fst (e (L - 1 - i))"
    using 0 by (simp add: entryAt_key shiftUp_def)
  then have k: "L_keyArray cur (L - 1 - i) \<le> key"
    using below [rule_format, of "L - 1 - i"] 0 i by simp
  let ?cur1 = "cur\<lparr>L_numOccupied := L_numOccupied cur + 1,
                    ridArray := (ridArray cur)(L - i := rid),
                    L_keyArray := (L_keyArray cur)(L - i := key)\<rparr>"
  have r: "splitLeaf_loop L c key rid cur new False i = (?cur1, new)"
    using 0 k M new by (subst splitLeaf_loop.simps) simp
  have "entryAt ?cur1 = (entryAt cur)(L - i := (key, rid))"
    by (rule entryAt_put)
  then have e2: "entryAt ?cur1 = (shiftUp e (L - p) (L - M))(L - p := (key, rid))"
    by (simp only: \<open>entryAt cur = shiftUp e (L - i) (L - M)\<close> i)
  have n2: "L_numOccupied ?cur1 = L + 1 - M" "rightSibPageNo ?cur1 = rightSibPageNo cur"
    using 0 by simp_all
  show ?case
    unfolding r prod.case using e2 n2 by blast
next
  case (Suc n)
  then have i: "i < p" by simp
  have "L_keyArray cur (L - 1 - i) = fst (e (L - 1 - i))"
    using Suc.prems by (simp add: entryAt_key shiftUp_def)
  then have k: "key < L_keyArray cur (L - 1 - i)"
    using above [rule_format, of "L - 1 - i"] Suc.prems i by simp
  define cur1 where "cur1 = cur\<lparr>L_keyArray := (L_keyArray cur)(L - i := L_keyArray cur (L - 1 - i)),
                    ridArray := (ridArray cur)(L - i := ridArray cur (L - 1 - i))\<rparr>"
  have "entryAt cur1 = (entryAt cur)(L - i := entryAt cur (L - 1 - i))"
    unfolding cur1_def by (rule entryAt_shift)
  also have "\<dots> = shiftUp e (L - i - 1) (L - M)"
    unfolding \<open>entryAt cur = shiftUp e (L - i) (L - M)\<close>
    by (rule shiftUp_extend) (use Suc.prems in simp_all)
  finally have e1: "entryAt cur1 = shiftUp e (L - (i + 1)) (L - M)"
    by (simp add: algebra_simps)
  have c1: "L_numOccupied cur1 = L - M" "rightSibPageNo cur1 = rightSibPageNo cur"
    using Suc.prems by (simp_all add: cur1_def)
  show ?case
  proof (cases "L = i + 1")
    case True
    define cur2 where "cur2 = cur1\<lparr>L_numOccupied := L_numOccupied cur1 + 1,
                       ridArray := (ridArray cur1)(L - 1 - i := rid),
                       L_keyArray := (L_keyArray cur1)(L - 1 - i := key)\<rparr>"
    have "splitLeaf_loop L c key rid cur new False i
            = splitLeaf_loop L c key rid cur2 new True (i + 1)"
      unfolding cur2_def cur1_def
      using True k M new Suc.prems by (subst splitLeaf_loop.simps) (simp add: Let_def)
    also have "\<dots> = (cur2, new)"
      using True by (subst splitLeaf_loop.simps) simp
    finally have r: "splitLeaf_loop L c key rid cur new False i = (cur2, new)" .
    have pL: "p = L"
      using True i Suc.prems by simp
    have "entryAt cur2 = (entryAt cur1)(L - 1 - i := (key, rid))"
      unfolding cur2_def by (rule entryAt_put)
    then have e2: "entryAt cur2 = (shiftUp e (L - p) (L - M))(L - p := (key, rid))"
      using e1 pL True by simp
    have n2: "L_numOccupied cur2 = L + 1 - M" "rightSibPageNo cur2 = rightSibPageNo cur"
      using c1 by (simp_all add: cur2_def)
    show ?thesis
      unfolding r prod.case using e2 n2 by blast
  next
    case False
    have step: "splitLeaf_loop L c key rid cur new False i
            = splitLeaf_loop L c key rid cur1 new False (i + 1)"
      unfolding cur1_def
      using False k M new Suc.prems by (subst splitLeaf_loop.simps) (simp add: Let_def)
    have "case splitLeaf_loop L c key rid cur1 new False (i + 1) of
           (cur', new') \<Rightarrow>
             entryAt cur' = (shiftUp e (L - p) (L - M))(L - p := (key, rid))
             \<and> L_numOccupied cur' = L + 1 - M
             \<and> rightSibPageNo cur' = rightSibPageNo cur1
             \<and> new' = new"
      using Suc.prems Suc.hyps(2) i False e1 c1
      by (intro Suc.hyps(1)) auto
    then show ?thesis
      unfolding step using c1 by simp
  qed
qed

text \<open>Phase 1: entries above the key move to the new leaf until it is full or the key's
  place is reached.\<close>

lemma splitLeaf_loop_phase1:
  assumes M: "M = L + 1 - c"
    and below: "\<forall>t. 0 \<le> t \<and> t < L - p \<longrightarrow> fst (e t) \<le> key"
    and above: "\<forall>t. L - p \<le> t \<and> t < L \<longrightarrow> key < fst (e t)"
    and p: "0 \<le> i" "i \<le> p" "i \<le> M" "p \<le> L" "M < L"
    and cur: "entryAt cur = e" "L_numOccupied cur = L - i"
    and new: "L_numOccupied new = i" "entryAt new = movedTop n0 e M L i"
  shows "case splitLeaf_loop L c key rid cur new False i of
           (cur', new') \<Rightarrow>
             rightSibPageNo cur' = rightSibPageNo cur
             \<and> rightSibPageNo new' = rightSibPageNo new
             \<and> L_numOccupied cur' = L + 1 - M
             \<and> L_numOccupied new' = M
             \<and> (if M \<le> p
                 then entryAt cur' = (shiftUp e (L - p) (L - M))(L - p := (key, rid))
                      \<and> entryAt new' = movedTop n0 e M L M
                 else entryAt cur' = e
                      \<and> entryAt new' = movedWithKey n0 e (key, rid) M L p (M - 1))"
  using p cur new
proof (induction "nat (min p M - i)" arbitrary: cur new i)
  case 0
  then have "i = min p M" by simp
  then consider "i = M" "M \<le> p" | "i = p" "p < M"
    by (cases "M \<le> p") (simp_all add: min_def)
  then show ?case
  proof cases
    case 1
    have iM: "0 \<le> M" "M \<le> i" "i \<le> p" "p \<le> L" "i < L"
      using "0.prems" 1 by simp_all
    have sh: "entryAt cur = shiftUp e (L - i) (L - M)"
      unfolding \<open>entryAt cur = e\<close> using 1 by (simp add: shiftUp_empty)
    have nc: "L_numOccupied cur = L - M" "L_numOccupied new = M"
      using "0.prems" 1 by simp_all
    have nw: "entryAt new = movedTop n0 e M L M"
      using "0.prems" 1 by simp
    have "case splitLeaf_loop L c key rid cur new False i of
           (cur', new') \<Rightarrow>
             entryAt cur' = (shiftUp e (L - p) (L - M))(L - p := (key, rid))
             \<and> L_numOccupied cur' = L + 1 - M
             \<and> rightSibPageNo cur' = rightSibPageNo cur
             \<and> new' = new"
      by (rule splitLeaf_loop_phase2 [OF M below above iM sh nc])
    then show ?thesis
      using 1(2) nc(2) nw by (simp split: prod.splits)
  next
    case 2
    have k: "L_keyArray cur (L - 1 - i) \<le> key"
      using below [rule_format, of "L - 1 - i"] 0 2 by (simp add: entryAt_key)
    define new1 where "new1 = new\<lparr>L_numOccupied := L_numOccupied new + 1,
                          ridArray := (ridArray new)(L + 1 - c - 1 - i := rid),
                          L_keyArray := (L_keyArray new)(L + 1 - c - 1 - i := key)\<rparr>"
    have "entryAt new1 = (entryAt new)(L + 1 - c - 1 - i := (key, rid))"
      unfolding new1_def by (rule entryAt_put)
    also have "\<dots> = movedWithKey n0 e (key, rid) M L p p"
      unfolding \<open>entryAt new = movedTop n0 e M L i\<close> 2
      by (rule movedTop_key) (use M in simp)
    finally have e1: "entryAt new1 = movedWithKey n0 e (key, rid) M L p p" .
    have n1: "L_numOccupied new1 = p + 1" "rightSibPageNo new1 = rightSibPageNo new"
      using 0 2 by (simp_all add: new1_def)
    show ?thesis
    proof (cases "p + 1 = M")
      case True
      have r: "splitLeaf_loop L c key rid cur new False i = (cur, new1)"
        unfolding new1_def
        using 0 2 k M True by (subst splitLeaf_loop.simps) (simp add: Let_def)
      have "M - 1 = p" using True by simp
      then have "entryAt new1 = movedWithKey n0 e (key, rid) M L p (M - 1)"
        using e1 by simp
      then show ?thesis
        unfolding r prod.case using 0 2 n1 True by simp
    next
      case False
      define cur2 where "cur2 = cur\<lparr>L_numOccupied := L_numOccupied cur - 1\<rparr>"
      define new2 where "new2 = new1\<lparr>ridArray := (ridArray new1)
                                   (L + 1 - c - 2 - i := ridArray cur (L - i - 1)),
                                L_keyArray := (L_keyArray new1)
                                   (L + 1 - c - 2 - i := L_keyArray cur (L - i - 1)),
                                L_numOccupied := L_numOccupied new1 + 1\<rparr>"
      have step: "splitLeaf_loop L c key rid cur new False i
                    = splitLeaf_loop L c key rid cur2 new2 True (i + 1)"
        unfolding new2_def cur2_def new1_def
        using 0 2 k M False by (subst splitLeaf_loop.simps) (simp add: Let_def)
      have "entryAt new2 = (entryAt new1)(L + 1 - c - 2 - i := entryAt cur (L - i - 1))"
        unfolding new2_def by (rule entryAt_move)
      also have "\<dots> = movedWithKey n0 e (key, rid) M L p (p + 1)"
        unfolding e1 \<open>entryAt cur = e\<close>
        by (rule movedWithKey_first_step) (use M 2 in simp_all)
      finally have e2: "entryAt new2 = movedWithKey n0 e (key, rid) M L p (i + 1)"
        using 2 by simp
      have "case splitLeaf_loop L c key rid cur2 new2 True (i + 1) of
           (cur', new') \<Rightarrow>
             entryAt cur' = e \<and> L_numOccupied cur' = L + 1 - M
             \<and> rightSibPageNo cur' = rightSibPageNo cur2
             \<and> L_numOccupied new' = M
             \<and> entryAt new' = movedWithKey n0 e (key, rid) M L p (M - 1)
             \<and> rightSibPageNo new' = rightSibPageNo new2"
        using 0 2 False e2 n1
        by (intro splitLeaf_loop_phase3 [OF M below]) (auto simp: cur2_def new2_def)
      then show ?thesis
        unfolding step using 2 n1 by (auto simp: cur2_def new2_def split: prod.splits)
    qed
  qed
next
  case (Suc n)
  then have i: "i < p" "i < M" "i < L" by auto
  have k: "key < L_keyArray cur (L - 1 - i)"
    using above [rule_format, of "L - 1 - i"] Suc.prems i by (simp add: entryAt_key)
  define cur1 where "cur1 = cur\<lparr>L_numOccupied := L_numOccupied cur - 1\<rparr>"
  define new1 where "new1 = new\<lparr>ridArray := (ridArray new)
                               (L + 1 - c - 1 - i := ridArray cur (L - 1 - i)),
                            L_keyArray := (L_keyArray new)
                               (L + 1 - c - 1 - i := L_keyArray cur (L - 1 - i)),
                            L_numOccupied := L_numOccupied new + 1\<rparr>"
  have step: "splitLeaf_loop L c key rid cur new False i
                = splitLeaf_loop L c key rid cur1 new1 False (i + 1)"
    unfolding cur1_def new1_def
    using i k M Suc.prems by (subst splitLeaf_loop.simps) simp
  have "entryAt new1 = (entryAt new)(L + 1 - c - 1 - i := entryAt cur (L - 1 - i))"
    unfolding new1_def by (rule entryAt_move)
  also have "\<dots> = movedTop n0 e M L (i + 1)"
    unfolding \<open>entryAt new = movedTop n0 e M L i\<close> \<open>entryAt cur = e\<close>
    by (rule movedTop_step) (use M Suc.prems in simp_all)
  finally have e1: "entryAt new1 = movedTop n0 e M L (i + 1)" .
  have "case splitLeaf_loop L c key rid cur1 new1 False (i + 1) of
           (cur', new') \<Rightarrow>
             rightSibPageNo cur' = rightSibPageNo cur1
             \<and> rightSibPageNo new' = rightSibPageNo new1
             \<and> L_numOccupied cur' = L + 1 - M
             \<and> L_numOccupied new' = M
             \<and> (if M \<le> p
                 then entryAt cur' = (shiftUp e (L - p) (L - M))(L - p := (key, rid))
                      \<and> entryAt new' = movedTop n0 e M L M
                 else entryAt cur' = e
                      \<and> entryAt new' = movedWithKey n0 e (key, rid) M L p (M - 1))"
    using Suc.prems Suc.hyps(2) i e1
    by (intro Suc.hyps(1)) (auto simp: cur1_def new1_def)
  then show ?case
    unfolding step by (auto simp: cur1_def new1_def split: prod.splits)
qed

lemma leafCapacity_nonneg: "0 \<le> L \<Longrightarrow> leafCapacity L = (L + 1) div 2"
  by (simp add: leafCapacity_def signed_divide_int_def sgn_if)

text \<open>The two leaves after the loop, cell by cell: the old leaf holds the first
  \<open>(L + 1) div 2\<close> entries of the old entries with the new one put at its place \<open>q\<close>,
  the new leaf holds the rest.\<close>

lemma splitLeaf_node_cells:
  assumes L: "3 \<le> L" and N: "L_numOccupied cur = L"
    and q: "0 \<le> q" "q \<le> L"
    and below: "\<forall>t. 0 \<le> t \<and> t < q \<longrightarrow> L_keyArray cur t \<le> key"
    and above: "\<forall>t. q \<le> t \<and> t < L \<longrightarrow> key < L_keyArray cur t"
    and r: "splitLeaf_node L key rid newPageNo cur fresh = (cur', new', up)"
  shows "L_numOccupied cur' = (L + 1) div 2
       \<and> L_numOccupied new' = L + 1 - (L + 1) div 2
       \<and> rightSibPageNo cur' = newPageNo
       \<and> rightSibPageNo new' = rightSibPageNo cur
       \<and> up = L_keyArray new' 0
       \<and> (\<forall>t. 0 \<le> t \<and> t < (L + 1) div 2
              \<longrightarrow> entryAt cur' t = insertedAt (entryAt cur) q (key, rid) t)
       \<and> (\<forall>t. 0 \<le> t \<and> t < L + 1 - (L + 1) div 2
              \<longrightarrow> entryAt new' t = insertedAt (entryAt cur) q (key, rid) (t + (L + 1) div 2))"
proof -
  define c where "c = leafCapacity L"
  define M where "M = L + 1 - c"
  define p where "p = L - q"
  define e where "e = entryAt cur"
  define n0 where "n0 = entryAt fresh"
  define cur0 where "cur0 = cur\<lparr>rightSibPageNo := newPageNo\<rparr>"
  define new0 where "new0 = fresh\<lparr>rightSibPageNo := rightSibPageNo cur, L_numOccupied := 0\<rparr>"
  have c: "c = (L + 1) div 2"
    using L by (simp add: c_def leafCapacity_nonneg)
  have M: "M = L + 1 - c" by (rule M_def)
  have Mb: "M < L" "1 \<le> M" "0 \<le> c"
    using L unfolding M_def c by linarith+
  have bel: "\<forall>t. 0 \<le> t \<and> t < L - p \<longrightarrow> fst (e t) \<le> key"
    using below by (simp add: p_def e_def entryAt_def)
  have abv: "\<forall>t. L - p \<le> t \<and> t < L \<longrightarrow> key < fst (e t)"
    using above by (simp add: p_def e_def entryAt_def)
  have pre: "0 \<le> (0::int)" "0 \<le> p" "0 \<le> M" "p \<le> L" "M < L"
    using q Mb by (simp_all add: p_def)
  have st: "entryAt cur0 = e" "L_numOccupied cur0 = L - 0"
       "L_numOccupied new0 = 0" "entryAt new0 = movedTop n0 e M L 0"
    using N by (auto simp: cur0_def new0_def e_def n0_def movedTop_def entryAt_def fun_eq_iff)
  obtain cur1 new1 where loop: "splitLeaf_loop L c key rid cur0 new0 False 0 = (cur1, new1)"
    by (cases "splitLeaf_loop L c key rid cur0 new0 False 0")
  have res: "cur' = cur1" "new' = new1" "up = L_keyArray new1 0"
    using r loop
    by (auto simp: splitLeaf_node_def Let_def c_def [symmetric] cur0_def [symmetric]
          new0_def [symmetric])
  have ph: "rightSibPageNo cur1 = rightSibPageNo cur0
             \<and> rightSibPageNo new1 = rightSibPageNo new0
             \<and> L_numOccupied cur1 = L + 1 - M
             \<and> L_numOccupied new1 = M
             \<and> (if M \<le> p
                 then entryAt cur1 = (shiftUp e (L - p) (L - M))(L - p := (key, rid))
                      \<and> entryAt new1 = movedTop n0 e M L M
                 else entryAt cur1 = e
                      \<and> entryAt new1 = movedWithKey n0 e (key, rid) M L p (M - 1))"
    using splitLeaf_loop_phase1 [OF M bel abv pre st, of rid] loop by simp
  have cells1: "\<forall>t. 0 \<le> t \<and> t < c \<longrightarrow> entryAt cur1 t = insertedAt e q (key, rid) t"
  proof (cases "M \<le> p")
    case True
    with ph have "entryAt cur1 = (shiftUp e (L - p) (L - M))(L - p := (key, rid))" by simp
    then show ?thesis
      using True M by (auto simp: insertedAt_def shiftUp_def p_def)
  next
    case False
    with ph have "entryAt cur1 = e" by simp
    then show ?thesis
      using False M by (auto simp: insertedAt_def p_def)
  qed
  have cells2: "\<forall>t. 0 \<le> t \<and> t < M \<longrightarrow> entryAt new1 t = insertedAt e q (key, rid) (t + c)"
  proof (cases "M \<le> p")
    case True
    with ph have "entryAt new1 = movedTop n0 e M L M" by simp
    then show ?thesis
      using True M by (auto simp: insertedAt_def movedTop_def p_def intro!: arg_cong [where f = e])
  next
    case False
    with ph have "entryAt new1 = movedWithKey n0 e (key, rid) M L p (M - 1)" by simp
    then show ?thesis
      using False M
      by (auto simp: insertedAt_def movedWithKey_def p_def intro!: arg_cong [where f = e])
  qed
  have cM: "L + 1 - M = c" by (simp add: M_def)
  show ?thesis
    unfolding c [symmetric] M_def [symmetric]
    using ph cells1 cells2 res cM
    by (simp add: cur0_def new0_def e_def)
qed

lemma set_leaf_entries:
  "z \<in> set (leaf_entries l) \<longleftrightarrow> (\<exists>t. 0 \<le> t \<and> t < L_numOccupied l \<and> z = entryAt l t)"
proof
  assume "z \<in> set (leaf_entries l)"
  then obtain i where "i < nat (L_numOccupied l)" "z = entryAt l (int i)"
    by (auto simp: leaf_entries_def entryAt_def)
  then show "\<exists>t. 0 \<le> t \<and> t < L_numOccupied l \<and> z = entryAt l t"
    by (intro exI [of _ "int i"]) auto
next
  assume "\<exists>t. 0 \<le> t \<and> t < L_numOccupied l \<and> z = entryAt l t"
  then obtain t where t: "0 \<le> t" "t < L_numOccupied l" "z = entryAt l t" by blast
  then have "nat t < nat (L_numOccupied l)" "z = entryAt l (int (nat t))" by simp_all
  then show "z \<in> set (leaf_entries l)"
    by (auto simp: leaf_entries_def entryAt_def image_iff intro!: bexI [of _ "nat t"])
qed

lemma set_leaf_keys:
  "k \<in> set (leaf_keys l) \<longleftrightarrow> (\<exists>t. 0 \<le> t \<and> t < L_numOccupied l \<and> k = L_keyArray l t)"
  unfolding leaf_keys_def by (force simp: set_leaf_entries entryAt_def)

text \<open>In a leaf with strictly ascending keys, a key that is not stored has a place \<open>q\<close>:
  the keys before \<open>q\<close> are smaller, the keys from \<open>q\<close> on are larger.\<close>

lemma insert_position:
  assumes srt: "sorted_wrt (<) (leaf_keys l)" and new: "key \<notin> set (leaf_keys l)"
    and N: "0 \<le> L_numOccupied l"
  shows "\<exists>q. 0 \<le> q \<and> q \<le> L_numOccupied l
             \<and> (\<forall>t. 0 \<le> t \<and> t < q \<longrightarrow> L_keyArray l t < key)
             \<and> (\<forall>t. q \<le> t \<and> t < L_numOccupied l \<longrightarrow> key < L_keyArray l t)"
proof -
  let ?ks = "leaf_keys l"
  let ?n = "length (takeWhile (\<lambda>k. k < key) ?ks)"
  from srt have asc: "\<And>a b. 0 \<le> a \<Longrightarrow> a < b \<Longrightarrow> b < L_numOccupied l
                        \<Longrightarrow> L_keyArray l a < L_keyArray l b"
    by (simp add: leaf_keys_ascending)
  have len: "?n \<le> nat (L_numOccupied l)"
    using length_takeWhile_le [of "\<lambda>k. k < key" ?ks] by simp
  have lo: "\<forall>t. 0 \<le> t \<and> t < int ?n \<longrightarrow> L_keyArray l t < key"
  proof (intro allI impI)
    fix t assume t: "0 \<le> t \<and> t < int ?n"
    then have "nat t < ?n" by linarith
    then have "?ks ! nat t < key"
      using nth_mem [of "nat t" "takeWhile (\<lambda>k. k < key) ?ks"]
      by (auto simp: takeWhile_nth dest: set_takeWhileD)
    moreover have "nat t < nat (L_numOccupied l)" "int (nat t) = t"
      using t len by linarith+
    ultimately show "L_keyArray l t < key"
      using leaf_keys_nth [of "nat t" l] by simp
  qed
  have hi: "\<forall>t. int ?n \<le> t \<and> t < L_numOccupied l \<longrightarrow> key < L_keyArray l t"
  proof (intro allI impI)
    fix t assume t: "int ?n \<le> t \<and> t < L_numOccupied l"
    then have "?n < nat (L_numOccupied l)" by linarith
    then have n: "?n < length ?ks" by simp
    then have "\<not> ?ks ! ?n < key"
      by (rule nth_length_takeWhile)
    moreover have "?ks ! ?n \<in> set ?ks" using n by simp
    ultimately have "key < ?ks ! ?n"
      using new by (cases "?ks ! ?n = key") auto
    then have first: "key < L_keyArray l (int ?n)"
      using n by (simp add: leaf_keys_nth)
    show "key < L_keyArray l t"
    proof (cases "t = int ?n")
      case True with first show ?thesis by simp
    next
      case False
      then have "L_keyArray l (int ?n) < L_keyArray l t"
        using t by (intro asc) auto
      with first show ?thesis by simp
    qed
  qed
  have "int ?n \<le> L_numOccupied l"
    using len N by linarith
  then show ?thesis
    using lo hi by (intro exI [of _ "int ?n"]) auto
qed

text \<open>
  The two leaves built by \<open>splitLeaf_node\<close>: a full leaf \<open>cur\<close> with strictly ascending
  keys that receives an entry with a key it does not hold is split into the old leaf
  \<open>cur'\<close> and the new leaf \<open>new'\<close> such that the occupancies sum to \<open>L + 1\<close>; the new
  leaf holds \<open>(L + 2) div 2\<close> entries, the ceiling of \<open>(L + 1) / 2\<close>; together they hold
  the old entries and the new one; the keys are strictly ascending in each leaf and every
  key of the old leaf is below every key of the new leaf; the new leaf takes over the old
  right sibling and becomes the old leaf's right sibling; the key handed upward is the
  new leaf's first key, which stays in the new leaf. The leaf capacity \<open>L\<close> is at least 3.
\<close>

lemma splitLeaf_node_partition:
  assumes L: "3 \<le> L" and N: "L_numOccupied cur = L"
    and srt: "sorted_wrt (<) (leaf_keys cur)"
    and new: "key \<notin> set (leaf_keys cur)"
    and r: "splitLeaf_node L key rid newPageNo cur fresh = (cur', new', up)"
  shows "L_numOccupied cur' + L_numOccupied new' = L + 1
       \<and> L_numOccupied new' = (L + 2) div 2
       \<and> set (leaf_entries cur') \<union> set (leaf_entries new')
            = insert (key, rid) (set (leaf_entries cur))
       \<and> sorted_wrt (<) (leaf_keys cur') \<and> sorted_wrt (<) (leaf_keys new')
       \<and> (\<forall>a \<in> set (leaf_keys cur'). \<forall>b \<in> set (leaf_keys new'). a < b)
       \<and> rightSibPageNo new' = rightSibPageNo cur
       \<and> rightSibPageNo cur' = newPageNo
       \<and> up = L_keyArray new' 0
       \<and> leaf_keys new' \<noteq> [] \<and> hd (leaf_keys new') = up"
proof -
  define c where "c = (L + 1) div 2"
  define M where "M = L + 1 - c"
  from srt have asc: "\<And>a b. 0 \<le> a \<Longrightarrow> a < b \<Longrightarrow> b < L \<Longrightarrow> L_keyArray cur a < L_keyArray cur b"
    using N by (simp add: leaf_keys_ascending)
  obtain q where q: "0 \<le> q" "q \<le> L"
    and below: "\<forall>t. 0 \<le> t \<and> t < q \<longrightarrow> L_keyArray cur t < key"
    and above: "\<forall>t. q \<le> t \<and> t < L \<longrightarrow> key < L_keyArray cur t"
    using insert_position [OF srt new] N L by auto
  define Y where "Y = insertedAt (entryAt cur) q (key, rid)"
  have below': "\<forall>t. 0 \<le> t \<and> t < q \<longrightarrow> L_keyArray cur t \<le> key"
    using below by (simp add: order.strict_implies_order)
  have cells: "L_numOccupied cur' = c" "L_numOccupied new' = M"
      "rightSibPageNo cur' = newPageNo" "rightSibPageNo new' = rightSibPageNo cur"
      "up = L_keyArray new' 0"
      "\<And>t. 0 \<le> t \<Longrightarrow> t < c \<Longrightarrow> entryAt cur' t = Y t"
      "\<And>t. 0 \<le> t \<Longrightarrow> t < M \<Longrightarrow> entryAt new' t = Y (t + c)"
    using splitLeaf_node_cells [OF L N q below' above r]
    by (simp_all add: c_def M_def Y_def)
  have cM: "0 < c" "0 < M" "c + M = L + 1" "M = (L + 2) div 2"
    using L unfolding M_def c_def by linarith+
  have Ykey: "\<And>t. fst (Y t) = (if t < q then L_keyArray cur t else if t = q then key
                                    else L_keyArray cur (t - 1))"
    by (simp add: Y_def insertedAt_def entryAt_def)
  have mono: "fst (Y a) < fst (Y b)" if "0 \<le> a" "a < b" "b \<le> L" for a b
  proof -
    consider "b < q" | "b = q" | "a < q" "q < b" | "a = q" | "q < a" by linarith
    then show ?thesis
    proof cases
      case 1
      then show ?thesis using that q asc [of a b] by (simp add: Ykey)
    next
      case 2
      then show ?thesis using that below by (simp add: Ykey)
    next
      case 3
      then have "L_keyArray cur a < L_keyArray cur (b - 1)"
        using that by (intro asc) auto
      then show ?thesis using 3 by (simp add: Ykey)
    next
      case 4
      then show ?thesis using that above [rule_format, of "b - 1"] by (simp add: Ykey)
    next
      case 5
      then have "L_keyArray cur (a - 1) < L_keyArray cur (b - 1)"
        using that q by (intro asc) auto
      then show ?thesis using 5 that by (simp add: Ykey)
    qed
  qed
  have k1: "\<And>t. 0 \<le> t \<Longrightarrow> t < c \<Longrightarrow> L_keyArray cur' t = fst (Y t)"
    using cells(6) by (simp add: entryAt_key)
  have k2: "\<And>t. 0 \<le> t \<Longrightarrow> t < M \<Longrightarrow> L_keyArray new' t = fst (Y (t + c))"
    using cells(7) by (simp add: entryAt_key)
  have s1: "sorted_wrt (<) (leaf_keys cur')"
    unfolding leaf_keys_ascending cells(1)
    using mono cM by (auto simp: k1)
  have s2: "sorted_wrt (<) (leaf_keys new')"
    unfolding leaf_keys_ascending cells(2)
    using mono cM by (auto simp: k2)
  have cross: "\<forall>a \<in> set (leaf_keys cur'). \<forall>b \<in> set (leaf_keys new'). a < b"
  proof (intro ballI)
    fix a b assume "a \<in> set (leaf_keys cur')" "b \<in> set (leaf_keys new')"
    then obtain s t where st: "0 \<le> s" "s < c" "a = L_keyArray cur' s"
        "0 \<le> t" "t < M" "b = L_keyArray new' t"
      unfolding set_leaf_keys cells(1) cells(2) by blast
    then have "fst (Y s) < fst (Y (t + c))"
      using cM by (intro mono) auto
    then show "a < b"
      using st by (simp add: k1 k2)
  qed
  have inY: "Y s \<in> set (leaf_entries cur') \<union> set (leaf_entries new')" if "0 \<le> s" "s \<le> L" for s
  proof (cases "s < c")
    case True
    then have "entryAt cur' s = Y s" using that cells(6) by simp
    then show ?thesis
      using True that cells(1) by (auto simp: set_leaf_entries intro!: exI [of _ s])
  next
    case False
    then have "entryAt new' (s - c) = Y s" "0 \<le> s - c" "s - c < M"
      using that cells(7) [of "s - c"] cM by simp_all
    then show ?thesis
      using cells(2) by (auto simp: set_leaf_entries intro!: exI [of _ "s - c"])
  qed
  have sets: "set (leaf_entries cur') \<union> set (leaf_entries new')
                = insert (key, rid) (set (leaf_entries cur))"
  proof (intro set_eqI iffI)
    fix z assume "z \<in> set (leaf_entries cur') \<union> set (leaf_entries new')"
    then consider t where "0 \<le> t" "t < c" "z = entryAt cur' t"
      | t where "0 \<le> t" "t < M" "z = entryAt new' t"
      by (auto simp: set_leaf_entries cells(1) cells(2))
    then obtain s where s: "0 \<le> s" "s \<le> L" "z = Y s"
    proof cases
      case 1
      then show ?thesis using cells(6) cM by (intro that [of t]) auto
    next
      case 2
      then show ?thesis using cells(7) cM by (intro that [of "t + c"]) auto
    qed
    show "z \<in> insert (key, rid) (set (leaf_entries cur))"
    proof (cases "s = q")
      case True
      then show ?thesis using s by (simp add: Y_def insertedAt_def)
    next
      case False
      then have "z = entryAt cur (if s < q then s else s - 1)"
        using s by (simp add: Y_def insertedAt_def)
      moreover have "0 \<le> (if s < q then s else s - 1)" "(if s < q then s else s - 1) < L"
        using s q False by auto
      ultimately show ?thesis
        using N by (auto simp: set_leaf_entries)
    qed
  next
    fix z assume "z \<in> insert (key, rid) (set (leaf_entries cur))"
    then consider "z = (key, rid)" | t where "0 \<le> t" "t < L" "z = entryAt cur t"
      using N by (auto simp: set_leaf_entries)
    then show "z \<in> set (leaf_entries cur') \<union> set (leaf_entries new')"
    proof cases
      case 1
      then have "z = Y q" by (simp add: Y_def insertedAt_def)
      then show ?thesis using inY [of q] q by simp
    next
      case 2
      then have "z = Y (if t < q then t else t + 1)"
        by (simp add: Y_def insertedAt_def)
      then show ?thesis
        using inY [of "if t < q then t else t + 1"] 2 by (simp split: if_splits)
    qed
  qed
  have ne: "leaf_keys new' \<noteq> []"
    using cells(2) cM by (auto simp: leaf_keys_def leaf_entries_def)
  then have hd: "hd (leaf_keys new') = up"
    using cells(2) cells(5) cM leaf_keys_nth [of 0 new'] by (simp add: hd_conv_nth)
  show ?thesis
    using cells(1-5) cM s1 s2 cross sets ne hd by simp
qed


lemma splitLeaf_node_example:
  "(3::int) \<le> 3 \<and> L_numOccupied fullLeaf = 3 \<and> sorted_wrt (<) (leaf_keys fullLeaf)
   \<and> 25 \<notin> set (leaf_keys fullLeaf)
   \<and> (case splitLeaf_node 3 25 (25, 1) 4 fullLeaf zeroLeaf of
        (cur', new', up) \<Rightarrow>
          leaf_entries cur' = [(10, (10, 1)), (20, (20, 1))]
          \<and> leaf_entries new' = [(25, (25, 1)), (30, (30, 1))]
          \<and> up = 25
          \<and> L_numOccupied cur' + L_numOccupied new' = 3 + 1
          \<and> L_numOccupied new' = (3 + 2) div 2
          \<and> rightSibPageNo new' = 9 \<and> rightSibPageNo cur' = 4
          \<and> (\<forall>a \<in> set (leaf_keys cur'). \<forall>b \<in> set (leaf_keys new'). a < b))"
proof -
  have h: "(3::int) \<le> 3" "L_numOccupied fullLeaf = 3" "sorted_wrt (<) (leaf_keys fullLeaf)"
    "25 \<notin> set (leaf_keys fullLeaf)"
    by code_simp+
  obtain cur' new' up where r: "splitLeaf_node 3 25 (25, 1) 4 fullLeaf zeroLeaf = (cur', new', up)"
    by (cases "splitLeaf_node 3 25 (25, 1) 4 fullLeaf zeroLeaf")
  have "case splitLeaf_node 3 25 (25, 1) 4 fullLeaf zeroLeaf of
          (cur', new', up) \<Rightarrow>
            leaf_entries cur' = [(10, (10, 1)), (20, (20, 1))]
            \<and> leaf_entries new' = [(25, (25, 1)), (30, (30, 1))] \<and> up = 25"
    by code_simp
  then have v: "leaf_entries cur' = [(10, (10, 1)), (20, (20, 1))]"
    "leaf_entries new' = [(25, (25, 1)), (30, (30, 1))]" "up = 25"
    unfolding r by simp_all
  have rs: "rightSibPageNo fullLeaf = 9"
    by (simp add: fullLeaf_def)
  from splitLeaf_node_partition [OF h r] v h rs show ?thesis
    unfolding r prod.case by simp
qed

text \<open>
  The bound on the capacity is needed: at capacity 2 the loop ends when the new leaf is
  full, before an entry smaller than all stored keys has been placed, and that entry is
  in neither leaf.
\<close>

lemma splitLeaf_node_capacity_two:
  "(case splitLeaf_node 2 5 (5, 1) 4 (fullLeaf\<lparr>L_numOccupied := 2\<rparr>) zeroLeaf of
      (cur', new', up) \<Rightarrow> (leaf_keys cur', leaf_keys new', up))
   = ([], [10, 20], 10)"
  by code_simp

text \<open>
  splitLeaf on a root leaf (empty ancestor list): the two leaves of \<open>splitLeaf_node\<close> are
  written to the old page and to the first new page, and the second new page becomes the
  root. Its occupancy is one more than what the new page held.
\<close>

lemma splitLeaf_root_case:
  assumes pg: "pages s pageNo = Some (LeafPage cur)"
    and hd: "pages s (headerPageNum s) = Some (MetaPage m)"
    and alloc: "pageNo \<le> numPages s" "headerPageNum s \<le> numPages s"
    and node: "splitLeaf_node (leafOccupancy s) key rid (numPages s + 1) cur
                 (freshLeaf s (numPages s + 1)) = (cur', new', up)"
  shows "\<exists>s' root. splitLeaf s key rid pageNo [] = Inr s'
           \<and> pages s' pageNo = Some (LeafPage cur')
           \<and> pages s' (numPages s + 1) = Some (LeafPage new')
           \<and> pages s' (numPages s + 2) = Some (NonLeafPage root)
           \<and> level root = 1 \<and> N_keyArray root 0 = up
           \<and> pageNoArray root 0 = pageNo \<and> pageNoArray root 1 = numPages s + 1
           \<and> N_numOccupied root = N_numOccupied (freshNonLeaf s (numPages s + 2)) + 1
           \<and> rootPageNum s' = numPages s + 2
           \<and> pages s' (headerPageNum s) = Some (MetaPage (m\<lparr>rootPageNo := numPages s + 2\<rparr>))
           \<and> \<not> onlyOneRoot s'"
proof -
  have ne: "headerPageNum s \<noteq> pageNo"
    using pg hd by auto
  have node': "splitLeaf_node (leafOccupancy s) key rid (Suc (numPages s)) cur
                 (freshLeaf s (Suc (numPages s))) = (cur', new', up)"
    using node by simp
  show ?thesis
    using pg hd alloc ne
    by (simp add: splitLeaf_def readLeaf_def allocPage_def node' Let_def writePage_def
          setHeaderRoot_def readMeta_def setKey_def setPageNo_def setOccupied_def)
qed

text \<open>
  A page that holds a leaf is not written by insertEntryInternal or splitInternal: they
  write the internal nodes they read, newly allocated pages and the header page.
\<close>

lemma readNonLeaf_iff:
  "(readNonLeaf s p = Inr n) = (pages s p = Some (NonLeafPage n))"
  by (auto simp: readNonLeaf_def split: option.splits page.splits)

lemma readMeta_iff:
  "(readMeta s p = Inr m) = (pages s p = Some (MetaPage m))"
  by (auto simp: readMeta_def split: option.splits page.splits)

lemma leaf_pages_kept:
  "insertEntryInternal s key pageNo newPageNo visitedNodes sfl = Inr s'
     \<Longrightarrow> pages s p = Some (LeafPage l) \<Longrightarrow> p \<le> numPages s
     \<Longrightarrow> pages s' p = Some (LeafPage l)"
  "splitInternal s key pageNo newPageNo visitedNodes sfl = Inr s'
     \<Longrightarrow> pages s p = Some (LeafPage l) \<Longrightarrow> p \<le> numPages s
     \<Longrightarrow> pages s' p = Some (LeafPage l)"
proof (induction s key pageNo newPageNo visitedNodes sfl
         and s key pageNo newPageNo visitedNodes sfl
       arbitrary: s' and s' rule: insertEntryInternal_splitInternal.induct)
  case (1 s key pageNo newPageNo visitedNodes splitFromLeaf)
  obtain node where rd: "readNonLeaf s pageNo = Inr node"
    using "1.prems"(1) by (subst (asm) insertEntryInternal.simps) (auto split: sum.splits)
  then have kind: "pages s pageNo = Some (NonLeafPage node)"
    by (simp add: readNonLeaf_iff)
  show ?case
  proof (cases "nodeOccupancy s < N_numOccupied node")
    case True
    then have "splitInternal s key pageNo newPageNo visitedNodes splitFromLeaf = Inr s'"
      using "1.prems"(1) rd by (subst (asm) insertEntryInternal.simps) simp
    then show ?thesis
      using "1.IH" [OF rd True] "1.prems" by blast
  next
    case False
    then have "s' = writePage s pageNo
                 (NonLeafPage (insertEntryInternal_node key newPageNo splitFromLeaf node))"
      using "1.prems"(1) rd by (subst (asm) insertEntryInternal.simps) simp
    moreover have "p \<noteq> pageNo"
      using kind "1.prems"(2) by auto
    ultimately show ?thesis
      using "1.prems"(2) by (simp add: writePage_def)
  qed
next
  case (2 s key pageNo newPageNo visitedNodes splitFromLeaf)
  obtain node where rd: "readNonLeaf s pageNo = Inr node"
    using "2.prems"(1) by (subst (asm) splitInternal.simps) (auto split: sum.splits)
  then have kind: "pages s pageNo = Some (NonLeafPage node)"
    by (simp add: readNonLeaf_iff)
  define n1 where "n1 = numPages s + 1"
  define s1 where "s1 = s\<lparr>numPages := numPages s + 1\<rparr>"
  have al: "allocPage s = (n1, s1)"
    by (simp add: allocPage_def n1_def s1_def)
  obtain cur new pk where
    sn: "splitInternal_node (nodeOccupancy s1) key newPageNo splitFromLeaf node
           (freshNonLeaf s1 n1) = (cur, new, pk)"
    by (metis prod_cases3)
  define s3 where
    "s3 = writePage (writePage s1 pageNo (NonLeafPage cur)) n1 (NonLeafPage new)"
  have ne: "p \<noteq> pageNo" "p \<noteq> n1"
    using kind "2.prems" by (auto simp: n1_def)
  have kept: "pages s3 p = Some (LeafPage l)" "p \<le> numPages s3"
    using ne "2.prems" by (simp_all add: s3_def s1_def writePage_def)
  show ?case
  proof (cases pk)
    case None
    then have "splitInternal s key pageNo newPageNo visitedNodes splitFromLeaf
                 = Inl UninitializedRead"
      by (subst splitInternal.simps) (simp add: rd al sn)
    with "2.prems"(1) show ?thesis by simp
  next
    case (Some k)
    show ?thesis
    proof (cases "visitedNodes = []")
      case False
      have "splitInternal s key pageNo newPageNo visitedNodes splitFromLeaf
              = insertEntryInternal s3 k (last visitedNodes) n1 (butlast visitedNodes) False"
        using False by (subst splitInternal.simps) (simp add: rd al sn Some s3_def)
      then have call: "insertEntryInternal s3 k (last visitedNodes) n1 (butlast visitedNodes) False
                         = Inr s'"
        using "2.prems"(1) by simp
      show ?thesis
        by (rule "2.IH" [OF rd al [symmetric] refl sn [symmetric] refl refl refl refl Some False
               call [unfolded s3_def] kept [unfolded s3_def]])
    next
      case True
      have "p \<noteq> Suc (numPages s)" "p \<noteq> Suc (Suc (numPages s))"
        using "2.prems"(3) by simp_all
      then show ?thesis
        using "2.prems"(1,2) True kind ne(1)
        by (subst (asm) splitInternal.simps)
           (auto simp: Let_def allocPage_def readNonLeaf_iff readMeta_iff writePage_def
                   setHeaderRoot_def
                 split: sum.splits prod.splits option.splits if_splits)
    qed
  qed
qed

lemma case_InrD:
  "(case r of Inr s \<Rightarrow> P s | _ \<Rightarrow> False) \<Longrightarrow> \<exists>s. r = Inr s \<and> P s"
  by (auto split: sum.splits)

text \<open>
  Claim C2, on splitLeaf: for a full leaf on an allocated page \<open>pageNo\<close>, with strictly
  ascending keys, that receives an entry with a key it does not hold, splitLeaf builds
  two leaves \<open>cur'\<close> and \<open>new'\<close> and writes them to \<open>pageNo\<close> and to the newly allocated
  page \<open>numPages s + 1\<close>. With ancestors it goes on as insertEntryInternal on the parent
  with the key \<open>new'.K[0]\<close> and the new page; without ancestors (and with the header page
  in place) it returns with a new root whose first key is \<open>new'.K[0]\<close> and whose children
  are the two pages. Whenever splitLeaf returns, the two pages hold \<open>cur'\<close> and \<open>new'\<close>.
  The occupancies sum to \<open>L + 1\<close>; the new leaf holds \<open>(L + 2) div 2\<close> entries, the
  ceiling of \<open>(L + 1) / 2\<close>; together the leaves hold the old entries and the new one;
  the keys are strictly ascending in each leaf and every key of the old leaf is below
  every key of the new leaf; the new leaf takes over the old right sibling and the old
  leaf's right sibling is the new page; the key handed upward is the first key of the
  new leaf and stays there. The leaf capacity \<open>L = leafOccupancy\<close> is at least 3.
\<close>

theorem C2_splitLeaf_partition:
  assumes pg: "pages s pageNo = Some (LeafPage cur)"
    and alloc: "pageNo \<le> numPages s"
    and L: "3 \<le> leafOccupancy s" and N: "L_numOccupied cur = leafOccupancy s"
    and srt: "sorted_wrt (<) (leaf_keys cur)"
    and new: "key \<notin> set (leaf_keys cur)"
  shows "\<exists>cur' new'.
      (visitedNodes \<noteq> [] \<longrightarrow>
         splitLeaf s key rid pageNo visitedNodes
           = insertEntryInternal
               (writePage (writePage (s\<lparr>numPages := numPages s + 1\<rparr>) pageNo (LeafPage cur'))
                  (numPages s + 1) (LeafPage new'))
               (L_keyArray new' 0) (last visitedNodes) (numPages s + 1)
               (butlast visitedNodes) True)
    \<and> (visitedNodes = [] \<and> headerPageNum s \<le> numPages s
          \<and> (\<exists>m. pages s (headerPageNum s) = Some (MetaPage m)) \<longrightarrow>
         (\<exists>s' root. splitLeaf s key rid pageNo visitedNodes = Inr s'
            \<and> rootPageNum s' = numPages s + 2
            \<and> pages s' (numPages s + 2) = Some (NonLeafPage root)
            \<and> N_keyArray root 0 = L_keyArray new' 0
            \<and> pageNoArray root 0 = pageNo \<and> pageNoArray root 1 = numPages s + 1))
    \<and> (\<forall>s'. splitLeaf s key rid pageNo visitedNodes = Inr s' \<longrightarrow>
           pages s' pageNo = Some (LeafPage cur')
           \<and> pages s' (numPages s + 1) = Some (LeafPage new'))
    \<and> L_numOccupied cur' + L_numOccupied new' = leafOccupancy s + 1
    \<and> L_numOccupied new' = (leafOccupancy s + 2) div 2
    \<and> set (leaf_entries cur') \<union> set (leaf_entries new')
         = insert (key, rid) (set (leaf_entries cur))
    \<and> sorted_wrt (<) (leaf_keys cur') \<and> sorted_wrt (<) (leaf_keys new')
    \<and> (\<forall>a \<in> set (leaf_keys cur'). \<forall>b \<in> set (leaf_keys new'). a < b)
    \<and> rightSibPageNo new' = rightSibPageNo cur
    \<and> rightSibPageNo cur' = numPages s + 1
    \<and> leaf_keys new' \<noteq> [] \<and> hd (leaf_keys new') = L_keyArray new' 0"
proof -
  define n1 where "n1 = numPages s + 1"
  obtain cur' new' up where
    node: "splitLeaf_node (leafOccupancy s) key rid (numPages s + 1) cur
             (freshLeaf s (numPages s + 1)) = (cur', new', up)"
    by (metis prod_cases3)
  have part: "L_numOccupied cur' + L_numOccupied new' = leafOccupancy s + 1
       \<and> L_numOccupied new' = (leafOccupancy s + 2) div 2
       \<and> set (leaf_entries cur') \<union> set (leaf_entries new')
            = insert (key, rid) (set (leaf_entries cur))
       \<and> sorted_wrt (<) (leaf_keys cur') \<and> sorted_wrt (<) (leaf_keys new')
       \<and> (\<forall>a \<in> set (leaf_keys cur'). \<forall>b \<in> set (leaf_keys new'). a < b)
       \<and> rightSibPageNo new' = rightSibPageNo cur
       \<and> rightSibPageNo cur' = numPages s + 1
       \<and> up = L_keyArray new' 0
       \<and> leaf_keys new' \<noteq> [] \<and> hd (leaf_keys new') = up"
    by (rule splitLeaf_node_partition [OF L N srt new node])
  then have up: "up = L_keyArray new' 0" by simp
  define s2 where
    "s2 = writePage (writePage (s\<lparr>numPages := numPages s + 1\<rparr>) pageNo (LeafPage cur'))
            (numPages s + 1) (LeafPage new')"
  have node': "splitLeaf_node (leafOccupancy s) key rid (Suc (numPages s)) cur
                 (freshLeaf s (Suc (numPages s))) = (cur', new', up)"
    using node by simp
  have s2': "s2 = writePage (writePage (s\<lparr>numPages := Suc (numPages s)\<rparr>) pageNo (LeafPage cur'))
            (Suc (numPages s)) (LeafPage new')"
    by (simp add: s2_def)
  have up_call: "splitLeaf s key rid pageNo visitedNodes
           = insertEntryInternal s2 (L_keyArray new' 0) (last visitedNodes) (numPages s + 1)
               (butlast visitedNodes) True"
    if "visitedNodes \<noteq> []"
    using that pg
    by (simp add: splitLeaf_def readLeaf_def allocPage_def node' Let_def s2' up)
  have p2: "pages s2 pageNo = Some (LeafPage cur')" "pages s2 (numPages s + 1) = Some (LeafPage new')"
    "pageNo \<le> numPages s2" "numPages s + 1 \<le> numPages s2"
    using alloc by (simp_all add: s2_def writePage_def)
  have root: "\<exists>s' root. splitLeaf s key rid pageNo visitedNodes = Inr s'
            \<and> rootPageNum s' = numPages s + 2
            \<and> pages s' (numPages s + 2) = Some (NonLeafPage root)
            \<and> N_keyArray root 0 = L_keyArray new' 0
            \<and> pageNoArray root 0 = pageNo \<and> pageNoArray root 1 = numPages s + 1"
    if "visitedNodes = []" "headerPageNum s \<le> numPages s"
       "pages s (headerPageNum s) = Some (MetaPage m)" for m
    using splitLeaf_root_case [OF pg that(3) alloc that(2) node] that(1) up by blast
  have kept: "pages s' pageNo = Some (LeafPage cur')
              \<and> pages s' (numPages s + 1) = Some (LeafPage new')"
    if ret: "splitLeaf s key rid pageNo visitedNodes = Inr s'" for s'
  proof (cases "visitedNodes = []")
    case False
    then have "insertEntryInternal s2 (L_keyArray new' 0) (last visitedNodes) (numPages s + 1)
               (butlast visitedNodes) True = Inr s'"
      using up_call ret by simp
    then show ?thesis
      using leaf_pages_kept(1) p2 by blast
  next
    case True
    have "pageNo \<noteq> Suc (numPages s)" "pageNo \<noteq> Suc (Suc (numPages s))"
      using alloc by simp_all
    then show ?thesis
      using ret True pg
      by (auto simp: splitLeaf_def readLeaf_def allocPage_def node' Let_def writePage_def
                setHeaderRoot_def readMeta_iff
              split: sum.splits)
  qed
  show ?thesis
    apply (rule exI [of _ cur'])
    apply (rule exI [of _ new'])
    using up_call root kept part unfolding s2_def up
    apply blast
    done
qed

theorem C2_splitLeaf_witness:
  "(\<exists>s cur s' cur' new' parent.
      insertInto smallIndex (map entry [10, 20, 30, 40, 50]) = Some (Inr s)
      \<and> searchEntry 8 s 60 (rootPageNum s) [] = Some (Inr (3, [4]))
      \<and> pages s 3 = Some (LeafPage cur) \<and> 3 \<le> numPages s
      \<and> 3 \<le> leafOccupancy s \<and> L_numOccupied cur = leafOccupancy s
      \<and> sorted_wrt (<) (leaf_keys cur) \<and> 60 \<notin> set (leaf_keys cur)
      \<and> splitLeaf s 60 (60, 1) 3 [4] = Inr s'
      \<and> pages s' 3 = Some (LeafPage cur') \<and> pages s' (numPages s + 1) = Some (LeafPage new')
      \<and> numPages s + 1 = 5
      \<and> leaf_keys cur' = [30, 40] \<and> leaf_keys new' = [50, 60]
      \<and> rightSibPageNo cur' = 5 \<and> rightSibPageNo new' = rightSibPageNo cur
      \<and> L_numOccupied cur' + L_numOccupied new' = leafOccupancy s + 1
      \<and> pages s' 4 = Some (NonLeafPage parent)
      \<and> node_keys parent = [30, 50] \<and> node_children parent = [2, 3, 5])
   \<and> (\<exists>s cur s' cur' new' root.
      insertInto smallIndex (map entry [10, 20, 30]) = Some (Inr s)
      \<and> pages s 2 = Some (LeafPage cur) \<and> 2 \<le> numPages s
      \<and> 3 \<le> leafOccupancy s \<and> L_numOccupied cur = leafOccupancy s
      \<and> sorted_wrt (<) (leaf_keys cur) \<and> 25 \<notin> set (leaf_keys cur)
      \<and> splitLeaf s 25 (25, 1) 2 [] = Inr s'
      \<and> pages s' 2 = Some (LeafPage cur') \<and> pages s' 3 = Some (LeafPage new')
      \<and> leaf_keys cur' = [10, 20] \<and> leaf_keys new' = [25, 30]
      \<and> rightSibPageNo cur' = 3 \<and> rightSibPageNo new' = rightSibPageNo cur
      \<and> pages s' 4 = Some (NonLeafPage root) \<and> N_keyArray root 0 = 25)"
proof -
  let ?Q = "\<lambda>s cur s'.
      searchEntry 8 s 60 (rootPageNum s) [] = Some (Inr (3, [4]))
      \<and> 3 \<le> numPages s \<and> numPages s + 1 = 5
      \<and> 3 \<le> leafOccupancy s \<and> L_numOccupied cur = leafOccupancy s
      \<and> sorted_wrt (<) (leaf_keys cur) \<and> 60 \<notin> set (leaf_keys cur)
      \<and> (case pages s' 3 of Some (LeafPage c) \<Rightarrow> leaf_keys c = [30, 40] | _ \<Rightarrow> False)
      \<and> (case pages s' 5 of Some (LeafPage c) \<Rightarrow> leaf_keys c = [50, 60] | _ \<Rightarrow> False)
      \<and> (case pages s' 4 of
             Some (NonLeafPage n) \<Rightarrow> node_keys n = [30, 50] \<and> node_children n = [2, 3, 5]
           | _ \<Rightarrow> False)"
  let ?P2 = "\<lambda>s cur. case splitLeaf s 60 (60, 1) 3 [4] of Inr s' \<Rightarrow> ?Q s cur s' | _ \<Rightarrow> False"
  let ?P1 = "\<lambda>s. case pages s 3 of Some (LeafPage cur) \<Rightarrow> ?P2 s cur | _ \<Rightarrow> False"
  have e: "case insertInto smallIndex (map entry [10, 20, 30, 40, 50]) of
             Some (Inr s) \<Rightarrow> ?P1 s | _ \<Rightarrow> False"
    by code_simp
  obtain s where s: "insertInto smallIndex (map entry [10, 20, 30, 40, 50]) = Some (Inr s)"
    and e1: "?P1 s"
    using case_Some_InrD [OF e] by blast
  obtain cur where cur: "pages s 3 = Some (LeafPage cur)" and e2: "?P2 s cur"
    using case_LeafPageD [OF e1] by blast
  obtain s' where ret: "splitLeaf s 60 (60, 1) 3 [4] = Inr s'" and q: "?Q s cur s'"
    using case_InrD [OF e2] by blast
  from q have h: "searchEntry 8 s 60 (rootPageNum s) [] = Some (Inr (3, [4]))"
      "3 \<le> numPages s" "numPages s + 1 = 5"
      "3 \<le> leafOccupancy s" "L_numOccupied cur = leafOccupancy s"
      "sorted_wrt (<) (leaf_keys cur)" "60 \<notin> set (leaf_keys cur)"
    and v: "case pages s' 3 of Some (LeafPage c) \<Rightarrow> leaf_keys c = [30, 40] | _ \<Rightarrow> False"
      "case pages s' 5 of Some (LeafPage c) \<Rightarrow> leaf_keys c = [50, 60] | _ \<Rightarrow> False"
    and v4: "case pages s' 4 of
         Some (NonLeafPage n) \<Rightarrow> node_keys n = [30, 50] \<and> node_children n = [2, 3, 5]
       | _ \<Rightarrow> False"
    by blast+
  obtain parent where par: "pages s' 4 = Some (NonLeafPage parent)"
      "node_keys parent = [30, 50]" "node_children parent = [2, 3, 5]"
    using v4 by (auto split: option.splits page.splits)
  from C2_splitLeaf_partition [OF cur h(2) h(4) h(5) h(6) h(7), of "[4]" "(60, 1)"]
  obtain cur' new' where c:
      "pages s' 3 = Some (LeafPage cur')" "pages s' (numPages s + 1) = Some (LeafPage new')"
      "L_numOccupied cur' + L_numOccupied new' = leafOccupancy s + 1"
      "rightSibPageNo new' = rightSibPageNo cur" "rightSibPageNo cur' = numPages s + 1"
    using ret by auto
  have k: "leaf_keys cur' = [30, 40]" "leaf_keys new' = [50, 60]"
    using v c(1) c(2) h(3) by simp_all
  have c5: "rightSibPageNo cur' = 5"
    using c(5) h(3) by simp
  have first: "\<exists>s cur s' cur' new' parent.
      insertInto smallIndex (map entry [10, 20, 30, 40, 50]) = Some (Inr s)
      \<and> searchEntry 8 s 60 (rootPageNum s) [] = Some (Inr (3, [4]))
      \<and> pages s 3 = Some (LeafPage cur) \<and> 3 \<le> numPages s
      \<and> 3 \<le> leafOccupancy s \<and> L_numOccupied cur = leafOccupancy s
      \<and> sorted_wrt (<) (leaf_keys cur) \<and> 60 \<notin> set (leaf_keys cur)
      \<and> splitLeaf s 60 (60, 1) 3 [4] = Inr s'
      \<and> pages s' 3 = Some (LeafPage cur') \<and> pages s' (numPages s + 1) = Some (LeafPage new')
      \<and> numPages s + 1 = 5
      \<and> leaf_keys cur' = [30, 40] \<and> leaf_keys new' = [50, 60]
      \<and> rightSibPageNo cur' = 5 \<and> rightSibPageNo new' = rightSibPageNo cur
      \<and> L_numOccupied cur' + L_numOccupied new' = leafOccupancy s + 1
      \<and> pages s' 4 = Some (NonLeafPage parent)
      \<and> node_keys parent = [30, 50] \<and> node_children parent = [2, 3, 5]"
    using s h cur ret c(1-4) c5 k par by blast
  let ?Q' = "\<lambda>s cur s'.
      (case pages s' 2 of Some (LeafPage c) \<Rightarrow> leaf_keys c = [10, 20] | _ \<Rightarrow> False)
      \<and> (case pages s' 3 of Some (LeafPage c) \<Rightarrow> leaf_keys c = [25, 30] | _ \<Rightarrow> False)
      \<and> 2 \<le> numPages s \<and> numPages s + 1 = 3 \<and> headerPageNum s \<le> numPages s
      \<and> 3 \<le> leafOccupancy s \<and> L_numOccupied cur = leafOccupancy s
      \<and> sorted_wrt (<) (leaf_keys cur) \<and> 25 \<notin> set (leaf_keys cur)
      \<and> (case pages s (headerPageNum s) of Some (MetaPage m) \<Rightarrow> True | _ \<Rightarrow> False)"
  let ?P2' = "\<lambda>s cur. case splitLeaf s 25 (25, 1) 2 [] of Inr s' \<Rightarrow> ?Q' s cur s' | _ \<Rightarrow> False"
  let ?P1' = "\<lambda>s. case pages s 2 of Some (LeafPage cur) \<Rightarrow> ?P2' s cur | _ \<Rightarrow> False"
  have e': "case insertInto smallIndex (map entry [10, 20, 30]) of
             Some (Inr s) \<Rightarrow> ?P1' s | _ \<Rightarrow> False"
    by code_simp
  obtain t where t: "insertInto smallIndex (map entry [10, 20, 30]) = Some (Inr t)"
    and e1': "?P1' t"
    using case_Some_InrD [OF e'] by blast
  obtain cur2 where cur2: "pages t 2 = Some (LeafPage cur2)" and e2': "?P2' t cur2"
    using case_LeafPageD [OF e1'] by blast
  obtain t' where ret': "splitLeaf t 25 (25, 1) 2 [] = Inr t'" and q': "?Q' t cur2 t'"
    using case_InrD [OF e2'] by blast
  from q' have g: "2 \<le> numPages t" "numPages t + 1 = 3" "headerPageNum t \<le> numPages t"
      "3 \<le> leafOccupancy t" "L_numOccupied cur2 = leafOccupancy t"
      "sorted_wrt (<) (leaf_keys cur2)" "25 \<notin> set (leaf_keys cur2)"
    and w: "case pages t' 2 of Some (LeafPage c) \<Rightarrow> leaf_keys c = [10, 20] | _ \<Rightarrow> False"
      "case pages t' 3 of Some (LeafPage c) \<Rightarrow> leaf_keys c = [25, 30] | _ \<Rightarrow> False"
    and wm: "case pages t (headerPageNum t) of Some (MetaPage m) \<Rightarrow> True | _ \<Rightarrow> False"
    by blast+
  obtain m where m: "pages t (headerPageNum t) = Some (MetaPage m)"
    using wm by (auto split: option.splits page.splits)
  from C2_splitLeaf_partition [OF cur2 g(1) g(4) g(5) g(6) g(7), of "[]" "(25, 1)"]
  obtain cur2' new2' root where d:
      "pages t' 2 = Some (LeafPage cur2')" "pages t' (numPages t + 1) = Some (LeafPage new2')"
      "rightSibPageNo new2' = rightSibPageNo cur2" "rightSibPageNo cur2' = numPages t + 1"
      "pages t' (numPages t + 2) = Some (NonLeafPage root)"
      "N_keyArray root 0 = L_keyArray new2' 0"
      "hd (leaf_keys new2') = L_keyArray new2' 0"
    using ret' g(3) m by auto
  have n2: "numPages t + 2 = 4"
    using g(2) by simp
  have k2: "leaf_keys cur2' = [10, 20]" "leaf_keys new2' = [25, 30]"
    using w d(1) d(2) g(2) by simp_all
  have r2: "pages t' 3 = Some (LeafPage new2')" "rightSibPageNo cur2' = 3"
      "pages t' 4 = Some (NonLeafPage root)" "N_keyArray root 0 = 25"
    using d k2 g(2) n2 by simp_all
  have second: "\<exists>s cur s' cur' new' root.
      insertInto smallIndex (map entry [10, 20, 30]) = Some (Inr s)
      \<and> pages s 2 = Some (LeafPage cur) \<and> 2 \<le> numPages s
      \<and> 3 \<le> leafOccupancy s \<and> L_numOccupied cur = leafOccupancy s
      \<and> sorted_wrt (<) (leaf_keys cur) \<and> 25 \<notin> set (leaf_keys cur)
      \<and> splitLeaf s 25 (25, 1) 2 [] = Inr s'
      \<and> pages s' 2 = Some (LeafPage cur') \<and> pages s' 3 = Some (LeafPage new')
      \<and> leaf_keys cur' = [10, 20] \<and> leaf_keys new' = [25, 30]
      \<and> rightSibPageNo cur' = 3 \<and> rightSibPageNo new' = rightSibPageNo cur
      \<and> pages s' 4 = Some (NonLeafPage root) \<and> N_keyArray root 0 = 25"
    using t cur2 g ret' d(1) d(3) k2 r2 by blast
  from first second show ?thesis by (rule conjI)
qed


end
